theory Spec2Isabelle
  imports Complex_Main
begin

text \<open>
  The sources: the type declarations (\<^verbatim>\<open>Participant\<close>, \<^verbatim>\<open>Prize\<close>, \<^verbatim>\<open>Winner\<close>,
  \<^verbatim>\<open>AppState\<close>) and \<^verbatim>\<open>src/App.tsx\<close>, which holds two copies of the component
  \<^verbatim>\<open>App\<close>, one after the other. The first copy (lines 1 to 424) is the one with the
  name roller that stops on the winner; the second copy (lines 425 to 824) differs in
  \<^verbatim>\<open>drawWinner\<close>, in the timeout and in what closing the modal does. This theory
  models the first copy in full (state, effects, handlers, and the events that the
  render makes possible) and the draw of the second copy.
\<close>

section \<open>Data model (the type declarations)\<close>

text \<open>
  The interfaces \<^verbatim>\<open>Participant\<close>, \<^verbatim>\<open>Prize\<close> and \<^verbatim>\<open>Winner\<close> and the enum \<^verbatim>\<open>AppState\<close>.
  A field keeps its name, prefixed by its interface where two interfaces share it
  (\<^verbatim>\<open>id\<close>, \<^verbatim>\<open>name\<close>). A \<^verbatim>\<open>number\<close> is an \<open>int\<close>: identifiers, ranks and the
  millisecond time stamps of \<^verbatim>\<open>Date.now()\<close> are whole numbers. A string is a list of
  8-bit characters: the code units of the text, each below 256 (the characters
  U+0000 to U+00FF); text with a character beyond that range is outside this model.
  The optional \<^verbatim>\<open>congratsMessage\<close> is an \<open>option\<close>.
\<close>

record Participant =
  participant_id :: string
  participant_name :: string

record Prize =
  prize_id :: int
  prize_rank :: int
  prize_name :: string
  prize_value :: string
  prize_icon :: string
  isBigWinner :: bool

record Winner =
  participant :: Participant
  prize :: Prize
  drawnAt :: int
  congratsMessage :: "string option"

datatype AppState = SETUP | READY | DRAWING | FINISHED

text \<open>
  The module \<^verbatim>\<open>./constants\<close> is imported by the component and is not part of the
  sources at hand, so its four constants are parameters of every definition below.
  The first copy of the component imports the participant names as
  \<^verbatim>\<open>DEFAULT_PARTICIPANTS_TEST\<close>, the second as \<^verbatim>\<open>DEFAULT_PARTICIPANTS\<close>; one field
  stands for both.
\<close>

record Config =
  PRIZES :: "Prize list"
  APP_STORAGE_KEY :: string
  DEFAULT_CONGRATS_MESSAGE :: string
  DEFAULT_PARTICIPANTS :: "string list"

section \<open>The platform: exceptions, strings, URI components, JSON, cookies\<close>

text \<open>
  The exceptions of the platform that the component can meet. \<open>Unmodelled\<close> is not an
  exception: it marks an input whose behaviour on the platform this development does
  not describe (a JSON number with a fraction or an exponent, a \<^verbatim>\<open>\u\<close> escape or a
  percent-encoded character above U+00FF, a stored value that is not a
  \<^verbatim>\<open>Winner[]\<close>). \<open>OutOfFuel\<close> is the parser's
  recursion bound; \<open>JSON_parse\<close> never returns it (\<open>JSON_parse_fuel\<close>).
\<close>

datatype error = TypeError | URIError | SyntaxError | Unmodelled | OutOfFuel

subsection \<open>Strings\<close>

text \<open>\<^verbatim>\<open>Array.prototype.join\<close> on strings.\<close>

fun join :: "string \<Rightarrow> string list \<Rightarrow> string" where
  "join sep [] = []"
| "join sep [x] = x"
| "join sep (x # y # ys) = x @ sep @ join sep (y # ys)"

text \<open>
  \<^verbatim>\<open>String.prototype.split\<close> with a separator \<open>x # xs\<close>: the pieces between the
  occurrences of the separator, scanned from the left. \<open>acc\<close> holds the current piece,
  reversed.
\<close>

fun split_on :: "char \<Rightarrow> string \<Rightarrow> string \<Rightarrow> string \<Rightarrow> string list" where
  "split_on x xs acc [] = [rev acc]"
| "split_on x xs acc (c # cs) =
     (if c = x \<and> take (length xs) cs = xs
      then rev acc # split_on x xs [] (drop (length xs) cs)
      else split_on x xs (c # acc) cs)"

definition String_split :: "string \<Rightarrow> string \<Rightarrow> string list" where
  "String_split sep s =
     (case sep of [] \<Rightarrow> map (\<lambda>c. [c]) s | x # xs \<Rightarrow> split_on x xs [] s)"

text \<open>Decimal digits of a natural number, and \<^verbatim>\<open>Number.prototype.toString\<close> on integers.\<close>

definition digit_char :: "nat \<Rightarrow> char" where
  "digit_char d = ''0123456789'' ! d"

fun digits :: "nat \<Rightarrow> string" where
  "digits n = (if n < 10 then [digit_char n] else digits (n div 10) @ [digit_char (n mod 10)])"

definition Number_toString :: "int \<Rightarrow> string" where
  "Number_toString n = (if n < 0 then CHR ''-'' # digits (nat (- n)) else digits (nat n))"

definition is_digit :: "char \<Rightarrow> bool" where
  "is_digit c = (48 \<le> (of_char c :: nat) \<and> (of_char c :: nat) \<le> 57)"

definition digits_value :: "string \<Rightarrow> nat" where
  "digits_value ds = foldl (\<lambda>a c. 10 * a + ((of_char c :: nat) - 48)) 0 ds"

subsection \<open>Hexadecimal digits\<close>

definition hex_upper :: "nat \<Rightarrow> char" where
  "hex_upper d = ''0123456789ABCDEF'' ! d"

definition hex_lower :: "nat \<Rightarrow> char" where
  "hex_lower d = ''0123456789abcdef'' ! d"

definition unhex :: "char \<Rightarrow> nat option" where
  "unhex c =
     (let n = (of_char c :: nat) in
      if 48 \<le> n \<and> n \<le> 57 then Some (n - 48)
      else if 65 \<le> n \<and> n \<le> 70 then Some (n - 55)
      else if 97 \<le> n \<and> n \<le> 102 then Some (n - 87)
      else None)"

subsection \<open>\<^verbatim>\<open>encodeURIComponent\<close> and \<^verbatim>\<open>decodeURIComponent\<close>\<close>

text \<open>
  \<^verbatim>\<open>encodeURIComponent\<close> keeps the unreserved characters and writes every octet of
  the UTF-8 encoding of any other character as \<^verbatim>\<open>%XX\<close> in upper-case hexadecimal: one
  octet for a character below U+0080, the two octets \<open>192 + n div 64\<close> and
  \<open>128 + n mod 64\<close> for a character \<open>n\<close> from U+0080 to U+00FF. (The platform throws
  on a lone surrogate; no string of this model holds one.)
\<close>

definition uriUnreserved :: "char \<Rightarrow> bool" where
  "uriUnreserved c =
     (c \<in> set ''ABCDEFGHIJKLMNOPQRSTUVWXYZabcdefghijklmnopqrstuvwxyz0123456789-_.!~*()''
      \<or> c = CHR 0x27)"

definition percent :: "nat \<Rightarrow> string" where
  "percent b = [CHR ''%'', hex_upper (b div 16), hex_upper (b mod 16)]"

definition encodeURIComponent_char :: "char \<Rightarrow> string" where
  "encodeURIComponent_char c =
     (if uriUnreserved c then [c]
      else if (of_char c :: nat) < 128 then percent (of_char c)
      else percent (192 + (of_char c :: nat) div 64) @ percent (128 + (of_char c :: nat) mod 64))"

definition encodeURIComponent :: "string \<Rightarrow> string" where
  "encodeURIComponent s = concat (map encodeURIComponent_char s)"

text \<open>
  \<^verbatim>\<open>decodeURIComponent\<close> copies every character other than \<^verbatim>\<open>%\<close>. At a \<^verbatim>\<open>%\<close> it reads
  an octet from the two hexadecimal digits that must follow, and throws \<^verbatim>\<open>URIError\<close>
  when they do not. An octet below 128 is the character. Any other octet must start
  a well-formed UTF-8 sequence, whose further octets are continuation octets (128 to
  191), each written as \<^verbatim>\<open>%XX\<close>; otherwise \<^verbatim>\<open>URIError\<close> is thrown: for a first
  octet that is itself a continuation octet, that is 192 or 193 (an overlong
  encoding) or that is above 244, and for a continuation octet that is missing.
  The first octets 194 and 195 start the characters U+0080 to U+00FF. A sequence
  that starts with an octet from 196 to 244 and has its continuation octets encodes
  a character above U+00FF, or is rejected by the platform for another reason: the
  result is \<open>Unmodelled\<close>.
\<close>

definition hex_octet :: "string \<Rightarrow> nat option" where
  "hex_octet s =
     (case s of
        a # b # _ \<Rightarrow>
          (case (unhex a, unhex b) of
             (Some h, Some l) \<Rightarrow> Some (16 * h + l)
           | _ \<Rightarrow> None)
      | _ \<Rightarrow> None)"

definition continuation :: "string \<Rightarrow> nat option" where
  "continuation s =
     (case s of
        [] \<Rightarrow> None
      | p # t \<Rightarrow>
          if p = CHR ''%'' then
            (case hex_octet t of
               None \<Rightarrow> None
             | Some x \<Rightarrow> if 128 \<le> x \<and> x < 192 then Some x else None)
          else None)"

function decodeURIComponent :: "string \<Rightarrow> error + string" where
  "decodeURIComponent [] = Inr []"
| "decodeURIComponent (c # cs) =
     (if c \<noteq> CHR ''%'' then
        (case decodeURIComponent cs of
           Inl e \<Rightarrow> Inl e
         | Inr s \<Rightarrow> Inr (c # s))
      else
        (case hex_octet cs of
           None \<Rightarrow> Inl URIError
         | Some b \<Rightarrow>
             if b < 128 then
               (case decodeURIComponent (drop 2 cs) of
                  Inl e \<Rightarrow> Inl e
                | Inr s \<Rightarrow> Inr (char_of b # s))
             else if b < 194 \<or> 244 < b then Inl URIError
             else if b < 224 then
               (case continuation (drop 2 cs) of
                  None \<Rightarrow> Inl URIError
                | Some x \<Rightarrow>
                    if 196 \<le> b then Inl Unmodelled
                    else
                      (case decodeURIComponent (drop 5 cs) of
                         Inl e \<Rightarrow> Inl e
                       | Inr s \<Rightarrow> Inr (char_of (64 * (b - 192) + (x - 128)) # s)))
             else if b < 240 then
               (if continuation (drop 2 cs) = None \<or> continuation (drop 5 cs) = None
                then Inl URIError else Inl Unmodelled)
             else
               (if continuation (drop 2 cs) = None \<or> continuation (drop 5 cs) = None
                   \<or> continuation (drop 8 cs) = None
                then Inl URIError else Inl Unmodelled)))"
  by pat_completeness auto
termination
  by (relation "measure length") auto

subsection \<open>JSON values, \<^verbatim>\<open>JSON.stringify\<close> and \<^verbatim>\<open>JSON.parse\<close>\<close>

text \<open>
  A JSON value; an object is the list of its members in the order of the text.
  Numbers are integers (see the data model).
\<close>

datatype json =
    JNull
  | JBool bool
  | JNumber int
  | JString string
  | JArray "json list"
  | JObject "(string \<times> json) list"

text \<open>
  \<^verbatim>\<open>JSON.stringify\<close>'s quoting of a string: the quote and the backslash are escaped,
  a control character has its short escape or \<^verbatim>\<open>\u00xx\<close> in lower-case hexadecimal,
  every other character is written as it is.
\<close>

definition quote_char :: "char \<Rightarrow> string" where
  "quote_char c =
     (let n = (of_char c :: nat) in
      if c = CHR 0x22 then [CHR 0x5C, CHR 0x22]
      else if c = CHR 0x5C then [CHR 0x5C, CHR 0x5C]
      else if n = 8 then [CHR 0x5C, CHR ''b'']
      else if n = 12 then [CHR 0x5C, CHR ''f'']
      else if n = 10 then [CHR 0x5C, CHR ''n'']
      else if n = 13 then [CHR 0x5C, CHR ''r'']
      else if n = 9 then [CHR 0x5C, CHR ''t'']
      else if n < 32 then [CHR 0x5C, CHR ''u'', CHR ''0'', CHR ''0'', hex_lower (n div 16), hex_lower (n mod 16)]
      else [c])"

definition quote :: "string \<Rightarrow> string" where
  "quote s = CHR 0x22 # concat (map quote_char s) @ [CHR 0x22]"

fun JSON_stringify :: "json \<Rightarrow> string"
  and stringify_elements :: "json list \<Rightarrow> string list"
  and stringify_members :: "(string \<times> json) list \<Rightarrow> string list" where
  "JSON_stringify JNull = ''null''"
| "JSON_stringify (JBool b) = (if b then ''true'' else ''false'')"
| "JSON_stringify (JNumber n) = Number_toString n"
| "JSON_stringify (JString s) = quote s"
| "JSON_stringify (JArray xs) = ''['' @ join '','' (stringify_elements xs) @ '']''"
| "JSON_stringify (JObject kvs) = ''{'' @ join '','' (stringify_members kvs) @ ''}''"
| "stringify_elements [] = []"
| "stringify_elements (v # vs) = JSON_stringify v # stringify_elements vs"
| "stringify_members [] = []"
| "stringify_members (kv # kvs) =
     (quote (fst kv) @ '':'' @ JSON_stringify (snd kv)) # stringify_members kvs"

text \<open>
  \<^verbatim>\<open>JSON.parse\<close>, by recursive descent. White space is skipped between tokens.
  A string ends at the first unescaped quote; a raw control character in it is a
  syntax error. A number is an optional minus sign and decimal digits with no
  leading zero.
\<close>

definition is_ws :: "char \<Rightarrow> bool" where
  "is_ws c = (c = CHR 0x20 \<or> c = CHR 0x09 \<or> c = CHR 0x0A \<or> c = CHR 0x0D)"

definition skip_ws :: "string \<Rightarrow> string" where
  "skip_ws s = dropWhile is_ws s"

definition parse_hex4 :: "string \<Rightarrow> (nat \<times> string) option" where
  "parse_hex4 s =
     (case s of
        a # b # c # d # rest \<Rightarrow>
          (case (unhex a, unhex b, unhex c, unhex d) of
             (Some w, Some x, Some y, Some z) \<Rightarrow> Some (4096 * w + 256 * x + 16 * y + z, rest)
           | _ \<Rightarrow> None)
      | _ \<Rightarrow> None)"

definition unescape :: "char \<Rightarrow> char option" where
  "unescape e =
     (if e = CHR 0x22 then Some (CHR 0x22)
      else if e = CHR 0x5C then Some (CHR 0x5C)
      else if e = CHR ''/'' then Some (CHR ''/'')
      else if e = CHR ''b'' then Some (CHR 0x08)
      else if e = CHR ''f'' then Some (CHR 0x0C)
      else if e = CHR ''n'' then Some (CHR 0x0A)
      else if e = CHR ''r'' then Some (CHR 0x0D)
      else if e = CHR ''t'' then Some (CHR 0x09)
      else None)"

text \<open>The characters of a string literal after its opening quote, and what follows it.\<close>

function parse_string :: "string \<Rightarrow> error + (string \<times> string)" where
  "parse_string [] = Inl SyntaxError"
| "parse_string (c # cs) =
     (if c = CHR 0x22 then Inr ([], cs)
      else if c = CHR 0x5C then
        (case cs of
           [] \<Rightarrow> Inl SyntaxError
         | e # rest \<Rightarrow>
             if e = CHR ''u'' then
               (case parse_hex4 rest of
                  None \<Rightarrow> Inl SyntaxError
                | Some (n, rest') \<Rightarrow>
                    if 256 \<le> n then Inl Unmodelled
                    else (case parse_string (drop 4 rest) of
                            Inl err \<Rightarrow> Inl err
                          | Inr (s, r) \<Rightarrow> Inr (char_of n # s, r)))
             else
               (case unescape e of
                  None \<Rightarrow> Inl SyntaxError
                | Some d \<Rightarrow>
                    (case parse_string rest of
                       Inl err \<Rightarrow> Inl err
                     | Inr (s, r) \<Rightarrow> Inr (d # s, r))))
      else if (of_char c :: nat) < 32 then Inl SyntaxError
      else
        (case parse_string cs of
           Inl err \<Rightarrow> Inl err
         | Inr (s, r) \<Rightarrow> Inr (c # s, r)))"
  by pat_completeness auto
termination
  by (relation "measure length") auto

definition parse_number :: "string \<Rightarrow> error + (int \<times> string)" where
  "parse_number s =
     (let neg = (case s of [] \<Rightarrow> False | c # _ \<Rightarrow> c = CHR ''-'');
          s1 = (if neg then tl s else s);
          ds = takeWhile is_digit s1;
          rest = dropWhile is_digit s1
      in if ds = [] then Inl SyntaxError
         else if hd ds = CHR ''0'' \<and> 1 < length ds then Inl SyntaxError
         else if (case rest of [] \<Rightarrow> False | c # _ \<Rightarrow> c = CHR ''.'' \<or> c = CHR ''e'' \<or> c = CHR ''E'')
           then Inl Unmodelled
         else Inr (if neg then - int (digits_value ds) else int (digits_value ds), rest))"

definition parse_literal :: "string \<Rightarrow> json \<Rightarrow> string \<Rightarrow> error + (json \<times> string)" where
  "parse_literal w v s =
     (if take (length w) s = w then Inr (v, drop (length w) s) else Inl SyntaxError)"

fun parse_value :: "nat \<Rightarrow> string \<Rightarrow> error + (json \<times> string)"
  and parse_elements :: "nat \<Rightarrow> json list \<Rightarrow> string \<Rightarrow> error + (json \<times> string)"
  and parse_members :: "nat \<Rightarrow> (string \<times> json) list \<Rightarrow> string \<Rightarrow> error + (json \<times> string)" where
  "parse_value 0 s = Inl OutOfFuel"
| "parse_value (Suc n) s =
     (case skip_ws s of
        [] \<Rightarrow> Inl SyntaxError
      | c # cs \<Rightarrow>
          if c = CHR ''{'' then
            (case skip_ws cs of
               [] \<Rightarrow> Inl SyntaxError
             | d # r \<Rightarrow> if d = CHR ''}'' then Inr (JObject [], r) else parse_members n [] cs)
          else if c = CHR ''['' then
            (case skip_ws cs of
               [] \<Rightarrow> Inl SyntaxError
             | d # r \<Rightarrow> if d = CHR '']'' then Inr (JArray [], r) else parse_elements n [] cs)
          else if c = CHR 0x22 then
            (case parse_string cs of
               Inl e \<Rightarrow> Inl e
             | Inr (str, r) \<Rightarrow> Inr (JString str, r))
          else if c = CHR ''t'' then parse_literal ''true'' (JBool True) (c # cs)
          else if c = CHR ''f'' then parse_literal ''false'' (JBool False) (c # cs)
          else if c = CHR ''n'' then parse_literal ''null'' JNull (c # cs)
          else if c = CHR ''-'' \<or> is_digit c then
            (case parse_number (c # cs) of
               Inl e \<Rightarrow> Inl e
             | Inr (k, r) \<Rightarrow> Inr (JNumber k, r))
          else Inl SyntaxError)"
| "parse_elements 0 acc s = Inl OutOfFuel"
| "parse_elements (Suc n) acc s =
     (case parse_value n s of
        Inl e \<Rightarrow> Inl e
      | Inr (v, r) \<Rightarrow>
          (case skip_ws r of
             [] \<Rightarrow> Inl SyntaxError
           | d # r' \<Rightarrow>
               if d = CHR '','' then parse_elements n (v # acc) r'
               else if d = CHR '']'' then Inr (JArray (rev (v # acc)), r')
               else Inl SyntaxError))"
| "parse_members 0 acc s = Inl OutOfFuel"
| "parse_members (Suc n) acc s =
     (case skip_ws s of
        [] \<Rightarrow> Inl SyntaxError
      | q # cs \<Rightarrow>
          if q \<noteq> CHR 0x22 then Inl SyntaxError
          else
            (case parse_string cs of
               Inl e \<Rightarrow> Inl e
             | Inr (k, r) \<Rightarrow>
                 (case skip_ws r of
                    [] \<Rightarrow> Inl SyntaxError
                  | colon # r1 \<Rightarrow>
                      if colon \<noteq> CHR '':'' then Inl SyntaxError
                      else
                        (case parse_value n r1 of
                           Inl e \<Rightarrow> Inl e
                         | Inr (v, r2) \<Rightarrow>
                             (case skip_ws r2 of
                                [] \<Rightarrow> Inl SyntaxError
                              | d # r3 \<Rightarrow>
                                  if d = CHR '','' then parse_members n ((k, v) # acc) r3
                                  else if d = CHR ''}'' then Inr (JObject (rev ((k, v) # acc)), r3)
                                  else Inl SyntaxError)))))"

definition JSON_parse :: "string \<Rightarrow> error + json" where
  "JSON_parse s =
     (case parse_value (Suc (2 * length s)) s of
        Inl e \<Rightarrow> Inl e
      | Inr (v, rest) \<Rightarrow> if skip_ws rest = [] then Inr v else Inl SyntaxError)"

subsection \<open>The cookie store behind \<^verbatim>\<open>document.cookie\<close>\<close>

text \<open>
  The browser keeps the cookies of the page as pairs of a name and a value. Reading
  \<^verbatim>\<open>document.cookie\<close> gives \<^verbatim>\<open>name=value\<close> for every cookie, joined by a
  semicolon and a space. Assigning \<^verbatim>\<open>name=value; expires=...\<close> removes the cookie
  of that name when the date is not in the future, and otherwise replaces its value,
  or adds the cookie. The browser ignores an assignment whose name and value
  together are longer than 4096 octets (the limit of RFC 6265bis, which the current
  browsers implement), so no cookie of that size is ever stored; the name and the
  value are counted in UTF-8. (A name that is over the limit by itself names no
  stored cookie, so an expiring assignment is modelled as removing the cookie of
  its name in every case.)
\<close>

type_synonym cookie_jar = "(string \<times> string) list"

definition document_cookie :: "cookie_jar \<Rightarrow> string" where
  "document_cookie jar = join ''; '' (map (\<lambda>nv. fst nv @ ''='' @ snd nv) jar)"

definition utf8_length :: "string \<Rightarrow> nat" where
  "utf8_length s = length s + length (filter (\<lambda>c. 128 \<le> (of_char c :: nat)) s)"

definition document_cookie_assign :: "string \<Rightarrow> string \<Rightarrow> bool \<Rightarrow> cookie_jar \<Rightarrow> cookie_jar" where
  "document_cookie_assign n v expired jar =
     (if expired then filter (\<lambda>nv. fst nv \<noteq> n) jar
      else if 4096 < utf8_length n + utf8_length v then jar
      else if n \<in> fst ` set jar then map (\<lambda>nv. if fst nv = n then (n, v) else nv) jar
      else jar @ [(n, v)])"

section \<open>The component\<close>

subsection \<open>Cookie helpers\<close>

text \<open>
  \<^verbatim>\<open>setCookie(name, value, days)\<close> assigns
  \<^verbatim>\<open>name=encodeURIComponent(value); expires=now + days\<close>.
\<close>

definition setCookie :: "string \<Rightarrow> string \<Rightarrow> int \<Rightarrow> cookie_jar \<Rightarrow> cookie_jar" where
  "setCookie n v days jar = document_cookie_assign n (encodeURIComponent v) (days \<le> 0) jar"

text \<open>
  \<^verbatim>\<open>getCookie(name)\<close> splits \<^verbatim>\<open>document.cookie\<close> at \<^verbatim>\<open>"; "\<close> and reduces the pieces
  from the left, starting from the empty string: a piece whose part before the first
  \<^verbatim>\<open>=\<close> is the name replaces the result by the decoding of its second part. A piece
  with no \<^verbatim>\<open>=\<close> has no second part, and \<^verbatim>\<open>decodeURIComponent(undefined)\<close> is the
  string \<^verbatim>\<open>undefined\<close>. An exception of the decoding leaves the reduction.
\<close>

definition getCookie_step :: "string \<Rightarrow> error + string \<Rightarrow> string \<Rightarrow> error + string" where
  "getCookie_step n r v =
     (case r of
        Inl e \<Rightarrow> Inl e
      | Inr r' \<Rightarrow>
          (let parts = String_split ''='' v in
           if hd parts = n
           then decodeURIComponent (case tl parts of [] \<Rightarrow> ''undefined'' | p1 # _ \<Rightarrow> p1)
           else Inr r'))"

definition getCookie :: "string \<Rightarrow> cookie_jar \<Rightarrow> error + string" where
  "getCookie n jar = foldl (getCookie_step n) (Inr []) (String_split ''; '' (document_cookie jar))"

subsection \<open>State\<close>

text \<open>
  The state of the component (its \<^verbatim>\<open>useState\<close> cells), and the browser around it:
  the cookies, the pending \<^verbatim>\<open>setTimeout\<close> callbacks in the order they were set, the
  calls of \<^verbatim>\<open>triggerCelebration\<close> (its argument), and the exceptions written by
  \<^verbatim>\<open>console.error\<close>. A pending callback is the closure it captured: the first copy
  of the component captures the chosen participant and the prize, the second copy
  captures the list of eligible participants, the prize and the number of prizes
  that remained.
\<close>

record State =
  participants :: "Participant list"
  winners :: "Winner list"
  appState :: AppState
  showWinnerModal :: bool
  lastWinner :: "Winner option"
  currentDrawnName :: "string option"

datatype Timeout =
    Timeout Participant Prize
  | Timeout2 "Participant list" Prize nat

record Browser =
  ui :: State
  cookies :: cookie_jar
  timeouts :: "Timeout list"
  confetti :: "bool list"
  console :: "error list"

text \<open>\<^verbatim>\<open>initialParticipants\<close>: the names, with the identifiers \<^verbatim>\<open>p-0\<close>, \<^verbatim>\<open>p-1\<close>, ...\<close>

definition initialParticipants :: "Config \<Rightarrow> Participant list" where
  "initialParticipants cfg =
     map (\<lambda>(i, n). \<lparr>participant_id = ''p-'' @ digits i, participant_name = n\<rparr>)
       (enumerate 0 (DEFAULT_PARTICIPANTS cfg))"

definition initialState :: "Config \<Rightarrow> State" where
  "initialState cfg =
     \<lparr>participants = initialParticipants cfg, winners = [], appState = READY,
      showWinnerModal = False, lastWinner = None, currentDrawnName = None\<rparr>"

subsection \<open>Derived values of a render\<close>

text \<open>
  \<^verbatim>\<open>remainingPrizes\<close>: the prizes whose id no winner holds, sorted by descending id
  (\<^verbatim>\<open>Array.prototype.sort\<close> is stable, as \<open>sort_key\<close> is). \<^verbatim>\<open>nextPrize\<close> is its
  first element, \<^verbatim>\<open>undefined\<close> when there is none.
\<close>

definition remainingPrizes :: "Config \<Rightarrow> Winner list \<Rightarrow> Prize list" where
  "remainingPrizes cfg ws =
     (let wonPrizeIds = map (\<lambda>w. prize_id (prize w)) ws
      in sort_key (\<lambda>p. - prize_id p) (filter (\<lambda>p. prize_id p \<notin> set wonPrizeIds) (PRIZES cfg)))"

definition nextPrize :: "Config \<Rightarrow> Winner list \<Rightarrow> Prize option" where
  "nextPrize cfg ws = (case remainingPrizes cfg ws of [] \<Rightarrow> None | p # _ \<Rightarrow> Some p)"

text \<open>The participants that \<^verbatim>\<open>drawWinner\<close> filters: no winner has their id.\<close>

definition eligible :: "Participant list \<Rightarrow> Winner list \<Rightarrow> Participant list" where
  "eligible ps ws =
     filter (\<lambda>p. find (\<lambda>w. participant_id (participant w) = participant_id p) ws = None) ps"

text \<open>
  \<^verbatim>\<open>xs[Math.floor(Math.random() * xs.length)]\<close>, for the value \<open>random\<close> that
  \<^verbatim>\<open>Math.random()\<close> returned: an index out of range reads \<^verbatim>\<open>undefined\<close>. The
  product is taken in the real numbers here, not in floating point.
\<close>

definition random_element :: "real \<Rightarrow> 'a list \<Rightarrow> 'a option" where
  "random_element random xs =
     (let i = \<lfloor>random * real (length xs)\<rfloor>
      in if 0 \<le> i \<and> nat i < length xs then Some (xs ! nat i) else None)"

definition isAllFinished :: "Config \<Rightarrow> State \<Rightarrow> bool" where
  "isAllFinished cfg st = (length (PRIZES cfg) \<le> length (winners st) \<and> \<not> showWinnerModal st)"

subsection \<open>Persistence: the two effects\<close>

text \<open>The object \<^verbatim>\<open>{ winners }\<close> as a JSON value, members in the order of the interfaces.\<close>

definition Participant_json :: "Participant \<Rightarrow> json" where
  "Participant_json p =
     JObject [(''id'', JString (participant_id p)), (''name'', JString (participant_name p))]"

definition Prize_json :: "Prize \<Rightarrow> json" where
  "Prize_json p =
     JObject [(''id'', JNumber (prize_id p)), (''rank'', JNumber (prize_rank p)),
              (''name'', JString (prize_name p)), (''value'', JString (prize_value p)),
              (''icon'', JString (prize_icon p)), (''isBigWinner'', JBool (isBigWinner p))]"

definition Winner_json :: "Winner \<Rightarrow> json" where
  "Winner_json w =
     JObject ([(''participant'', Participant_json (participant w)),
               (''prize'', Prize_json (prize w)),
               (''drawnAt'', JNumber (drawnAt w))]
              @ (case congratsMessage w of
                   None \<Rightarrow> []
                 | Some m \<Rightarrow> [(''congratsMessage'', JString m)]))"

definition winners_json :: "Winner list \<Rightarrow> json" where
  "winners_json ws = JObject [(''winners'', JArray (map Winner_json ws))]"

text \<open>
  Reading a parsed value back at the declared types. A property of an object is its
  last member of that name; a value of another shape than the interface is not a
  value of the type.
\<close>

definition property :: "(string \<times> json) list \<Rightarrow> string \<Rightarrow> json option" where
  "property kvs k = map_of (rev kvs) k"

definition json_Participant :: "json \<Rightarrow> Participant option" where
  "json_Participant j =
     (case j of
        JObject kvs \<Rightarrow>
          (case (property kvs ''id'', property kvs ''name'') of
             (Some (JString i), Some (JString n)) \<Rightarrow>
               Some \<lparr>participant_id = i, participant_name = n\<rparr>
           | _ \<Rightarrow> None)
      | _ \<Rightarrow> None)"

definition json_Prize :: "json \<Rightarrow> Prize option" where
  "json_Prize j =
     (case j of
        JObject kvs \<Rightarrow>
          (case (property kvs ''id'', property kvs ''rank'', property kvs ''name'',
                 property kvs ''value'', property kvs ''icon'', property kvs ''isBigWinner'') of
             (Some (JNumber i), Some (JNumber r), Some (JString n),
              Some (JString v), Some (JString ic), Some (JBool b)) \<Rightarrow>
               Some \<lparr>prize_id = i, prize_rank = r, prize_name = n, prize_value = v,
                     prize_icon = ic, isBigWinner = b\<rparr>
           | _ \<Rightarrow> None)
      | _ \<Rightarrow> None)"

definition json_congratsMessage :: "json option \<Rightarrow> string option option" where
  "json_congratsMessage j =
     (case j of None \<Rightarrow> Some None | Some (JString m) \<Rightarrow> Some (Some m) | _ \<Rightarrow> None)"

definition json_Winner :: "json \<Rightarrow> Winner option" where
  "json_Winner j =
     (case j of
        JObject kvs \<Rightarrow>
          (case (Option.bind (property kvs ''participant'') json_Participant,
                 Option.bind (property kvs ''prize'') json_Prize,
                 property kvs ''drawnAt'',
                 json_congratsMessage (property kvs ''congratsMessage'')) of
             (Some p, Some z, Some (JNumber t), Some m) \<Rightarrow>
               Some \<lparr>participant = p, prize = z, drawnAt = t, congratsMessage = m\<rparr>
           | _ \<Rightarrow> None)
      | _ \<Rightarrow> None)"

fun json_Winners :: "json list \<Rightarrow> Winner list option" where
  "json_Winners [] = Some []"
| "json_Winners (j # js) =
     (case json_Winner j of
        None \<Rightarrow> None
      | Some w \<Rightarrow> (case json_Winners js of None \<Rightarrow> None | Some ws \<Rightarrow> Some (w # ws)))"

text \<open>The values that \<^verbatim>\<open>||\<close> replaces by its right operand.\<close>

definition falsy :: "json option \<Rightarrow> bool" where
  "falsy v =
     (v = None \<or> v = Some JNull \<or> v = Some (JBool False) \<or> v = Some (JNumber 0)
      \<or> v = Some (JString []))"

text \<open>
  The load effect, run once when the component is mounted:
  \<^verbatim>\<open>
  const saved = getCookie(APP_STORAGE_KEY)
  if (saved) {
    try {
      const parsed = JSON.parse(saved)
      setWinners(parsed.winners || [])
      if (parsed.winners?.length >= PRIZES.length) setAppState(AppState.FINISHED)
    } catch (e) { console.error("Cookie loading error:", e) }
  }
  \<close>
  \<^verbatim>\<open>getCookie\<close> is called outside the \<^verbatim>\<open>try\<close>: its exception leaves the effect
  (\<open>Inl URIError\<close>). Inside the \<^verbatim>\<open>try\<close>, a \<^verbatim>\<open>SyntaxError\<close> of the parser and the
  \<^verbatim>\<open>TypeError\<close> of reading \<^verbatim>\<open>winners\<close> of \<^verbatim>\<open>null\<close> are caught and logged. Of the
  values that are not arrays, only the empty string has a \<^verbatim>\<open>length\<close> to compare.
\<close>

definition catch_log :: "error \<Rightarrow> Browser \<Rightarrow> error + Browser" where
  "catch_log e b = Inr (b\<lparr>console := console b @ [e]\<rparr>)"

definition load_parsed :: "Config \<Rightarrow> json \<Rightarrow> Browser \<Rightarrow> error + Browser" where
  "load_parsed cfg parsed b =
     (case parsed of
        JNull \<Rightarrow> catch_log TypeError b
      | _ \<Rightarrow>
          (let v = (case parsed of JObject kvs \<Rightarrow> property kvs ''winners'' | _ \<Rightarrow> None) in
           if falsy v then
             Inr (b\<lparr>ui := (ui b)\<lparr>winners := [],
                      appState := (if v = Some (JString []) \<and> length (PRIZES cfg) \<le> 0
                                   then FINISHED else appState (ui b))\<rparr>\<rparr>)
           else
             (case v of
                Some (JArray js) \<Rightarrow>
                  (case json_Winners js of
                     None \<Rightarrow> Inl Unmodelled
                   | Some ws \<Rightarrow>
                       Inr (b\<lparr>ui := (ui b)\<lparr>winners := ws,
                                appState := (if length (PRIZES cfg) \<le> length ws
                                             then FINISHED else appState (ui b))\<rparr>\<rparr>))
              | _ \<Rightarrow> Inl Unmodelled)))"

definition load_effect :: "Config \<Rightarrow> Browser \<Rightarrow> error + Browser" where
  "load_effect cfg b =
     (case getCookie (APP_STORAGE_KEY cfg) (cookies b) of
        Inl e \<Rightarrow> Inl e
      | Inr saved \<Rightarrow>
          if saved = [] then Inr b
          else
            (case JSON_parse saved of
               Inl SyntaxError \<Rightarrow> catch_log SyntaxError b
             | Inl e \<Rightarrow> Inl e
             | Inr parsed \<Rightarrow> load_parsed cfg parsed b))"

text \<open>
  The save effect, run after every render in which \<^verbatim>\<open>winners\<close> changed:
  \<^verbatim>\<open>if (winners.length > 0) setCookie(APP_STORAGE_KEY, JSON.stringify({ winners }), 7)\<close>.
\<close>

definition save_effect :: "Config \<Rightarrow> Browser \<Rightarrow> Browser" where
  "save_effect cfg b =
     (if 0 < length (winners (ui b))
      then b\<lparr>cookies := setCookie (APP_STORAGE_KEY cfg)
                 (JSON_stringify (winners_json (winners (ui b)))) 7 (cookies b)\<rparr>
      else b)"

text \<open>
  Mounting the component in a browser that holds the cookies \<open>jar\<close>: the initial
  state, the load effect, and the save effect for the winners it set.
\<close>

definition initialBrowser :: "Config \<Rightarrow> cookie_jar \<Rightarrow> Browser" where
  "initialBrowser cfg jar =
     \<lparr>ui = initialState cfg, cookies = jar, timeouts = [], confetti = [], console = []\<rparr>"

definition mount :: "Config \<Rightarrow> cookie_jar \<Rightarrow> error + Browser" where
  "mount cfg jar =
     (case load_effect cfg (initialBrowser cfg jar) of
        Inl e \<Rightarrow> Inl e
      | Inr b \<Rightarrow> Inr (save_effect cfg b))"

subsection \<open>The handlers of the first copy of the component\<close>

text \<open>
  \<^verbatim>\<open>drawWinner\<close>:
  \<^verbatim>\<open>
  if (!nextPrize || participants.length === 0 || appState === AppState.DRAWING) return
  const eligible = participants.filter((p) => !winners.find((w) => w.participant.id === p.id))
  if (eligible.length === 0) return
  const winnerParticipant = eligible[Math.floor(Math.random() * eligible.length)]
  const prizeForThisDraw = nextPrize
  setAppState(AppState.DRAWING)
  setCurrentDrawnName(winnerParticipant.name)
  setTimeout(() => { ... }, 2800)
  \<close>
  Reading \<^verbatim>\<open>name\<close> of an undefined \<^verbatim>\<open>winnerParticipant\<close> would throw \<^verbatim>\<open>TypeError\<close>.
\<close>

definition drawWinner :: "Config \<Rightarrow> real \<Rightarrow> Browser \<Rightarrow> error + Browser" where
  "drawWinner cfg random b =
     (case nextPrize cfg (winners (ui b)) of
        None \<Rightarrow> Inr b
      | Some prizeForThisDraw \<Rightarrow>
          if length (participants (ui b)) = 0 \<or> appState (ui b) = DRAWING then Inr b
          else if length (eligible (participants (ui b)) (winners (ui b))) = 0 then Inr b
          else
            (case random_element random (eligible (participants (ui b)) (winners (ui b))) of
               None \<Rightarrow> Inl TypeError
             | Some winnerParticipant \<Rightarrow>
                 Inr (b\<lparr>ui := (ui b)\<lparr>appState := DRAWING,
                                      currentDrawnName := Some (participant_name winnerParticipant)\<rparr>,
                        timeouts := timeouts b @ [Timeout winnerParticipant prizeForThisDraw]\<rparr>)))"

text \<open>
  The callback that \<^verbatim>\<open>drawWinner\<close> hands to \<^verbatim>\<open>setTimeout\<close>; \<open>now\<close> is what
  \<^verbatim>\<open>Date.now()\<close> returns when it runs:
  \<^verbatim>\<open>
  const newWinner = { participant: winnerParticipant, prize: prizeForThisDraw,
                      drawnAt: Date.now(), congratsMessage: DEFAULT_CONGRATS_MESSAGE }
  setWinners((prev) => [...prev, newWinner])
  setLastWinner(newWinner)
  setShowWinnerModal(true)
  triggerCelebration(prizeForThisDraw.isBigWinner)
  // We wait until modal closes to set AppState.FINISHED
  setAppState(AppState.READY)
  \<close>
\<close>

definition newWinner :: "Config \<Rightarrow> int \<Rightarrow> Participant \<Rightarrow> Prize \<Rightarrow> Winner" where
  "newWinner cfg now p z =
     \<lparr>participant = p, prize = z, drawnAt = now,
      congratsMessage = Some (DEFAULT_CONGRATS_MESSAGE cfg)\<rparr>"

definition timeout_callback :: "Config \<Rightarrow> int \<Rightarrow> Participant \<Rightarrow> Prize \<Rightarrow> Browser \<Rightarrow> Browser" where
  "timeout_callback cfg now winnerParticipant prizeForThisDraw b =
     b\<lparr>ui := (ui b)\<lparr>winners := winners (ui b) @ [newWinner cfg now winnerParticipant prizeForThisDraw],
                     lastWinner := Some (newWinner cfg now winnerParticipant prizeForThisDraw),
                     showWinnerModal := True,
                     appState := READY\<rparr>,
       confetti := confetti b @ [isBigWinner prizeForThisDraw]\<rparr>"

text \<open>
  The \<^verbatim>\<open>onClose\<close> of the winner modal:
  \<^verbatim>\<open>
  setShowWinnerModal(false)
  setCurrentDrawnName(null)
  if (winners.length >= PRIZES.length) setAppState(AppState.FINISHED)
  \<close>
\<close>

definition onClose :: "Config \<Rightarrow> Browser \<Rightarrow> Browser" where
  "onClose cfg b =
     b\<lparr>ui := (ui b)\<lparr>showWinnerModal := False,
                     currentDrawnName := None,
                     appState := (if length (PRIZES cfg) \<le> length (winners (ui b))
                                  then FINISHED else appState (ui b))\<rparr>\<rparr>"

text \<open>
  \<^verbatim>\<open>handleReset\<close>; \<open>confirmed\<close> is the answer of \<^verbatim>\<open>window.confirm\<close>:
  \<^verbatim>\<open>
  if (window.confirm(...)) {
    setWinners([])
    setAppState(AppState.READY)
    setCookie(APP_STORAGE_KEY, "", -1)
  }
  \<close>
\<close>

definition handleReset :: "Config \<Rightarrow> bool \<Rightarrow> Browser \<Rightarrow> Browser" where
  "handleReset cfg confirmed b =
     (if confirmed
      then b\<lparr>ui := (ui b)\<lparr>winners := [], appState := READY\<rparr>,
             cookies := setCookie (APP_STORAGE_KEY cfg) [] (- 1) (cookies b)\<rparr>
      else b)"

subsection \<open>The events of the first copy of the component\<close>

text \<open>
  What the render shows decides which handler an operator can reach: the draw
  button is rendered when not everything is finished, no draw is in progress and a
  next prize exists; the reset button when everything is finished; the modal when
  \<^verbatim>\<open>showWinnerModal\<close> is set and there is a last winner. An event on an element that
  is not rendered changes nothing (as a reset that is not confirmed does). After a
  handler that sets \<^verbatim>\<open>winners\<close> the save effect runs. Timeouts of one delay run in the order they were set. A reload of
  the page mounts the component again on the cookies of the browser.
\<close>

datatype Event =
    ClickDraw real
  | TimeoutFires int
  | CloseModal
  | ClickReset bool
  | Reload

definition draw_button_rendered :: "Config \<Rightarrow> State \<Rightarrow> bool" where
  "draw_button_rendered cfg st =
     (\<not> isAllFinished cfg st \<and> appState st \<noteq> DRAWING \<and> nextPrize cfg (winners st) \<noteq> None)"

definition modal_rendered :: "State \<Rightarrow> bool" where
  "modal_rendered st = (showWinnerModal st \<and> lastWinner st \<noteq> None)"

fun step :: "Config \<Rightarrow> Event \<Rightarrow> Browser \<Rightarrow> error + Browser" where
  "step cfg (ClickDraw random) b =
     (if draw_button_rendered cfg (ui b) then drawWinner cfg random b else Inr b)"
| "step cfg (TimeoutFires now) b =
     (case timeouts b of
        Timeout p z # ts \<Rightarrow> Inr (save_effect cfg (timeout_callback cfg now p z (b\<lparr>timeouts := ts\<rparr>)))
      | _ \<Rightarrow> Inr b)"
| "step cfg CloseModal b = (if modal_rendered (ui b) then Inr (onClose cfg b) else Inr b)"
| "step cfg (ClickReset confirmed) b =
     (if isAllFinished cfg (ui b) then
        (if confirmed then Inr (save_effect cfg (handleReset cfg True b))
         else Inr (handleReset cfg False b))
      else Inr b)"
| "step cfg Reload b = mount cfg (cookies b)"

fun run :: "Config \<Rightarrow> Event list \<Rightarrow> Browser \<Rightarrow> error + Browser" where
  "run cfg [] b = Inr b"
| "run cfg (e # es) b = (case step cfg e b of Inl err \<Rightarrow> Inl err | Inr b' \<Rightarrow> run cfg es b')"

text \<open>\<^verbatim>\<open>Math.random()\<close> returns a number from 0 up to, and not including, 1.\<close>

fun valid_event :: "Event \<Rightarrow> bool" where
  "valid_event (ClickDraw random) = (0 \<le> random \<and> random < 1)"
| "valid_event _ = True"

subsection \<open>The handlers of the second copy of the component\<close>

text \<open>
  The second copy of the component differs in \<^verbatim>\<open>drawWinner\<close>: it has no test of the
  eligible list, and it chooses the participant when the timeout runs:
  \<^verbatim>\<open>
  if (!nextPrize || participants.length === 0 || appState === AppState.DRAWING) return
  setAppState(AppState.DRAWING)
  const eligible = participants.filter((p) => !winners.find((w) => w.participant.id === p.id))
  setTimeout(() => {
    const winnerParticipant = eligible[Math.floor(Math.random() * eligible.length)]
    const newWinner = { participant: winnerParticipant, prize: nextPrize, ... }
    setWinners((prev) => [...prev, newWinner])
    setLastWinner(newWinner)
    setShowWinnerModal(true)
    triggerCelebration(nextPrize.isBigWinner)
    setAppState(remainingPrizes.length === 1 ? AppState.FINISHED : AppState.READY)
  }, 2500)
  \<close>
  A \<^verbatim>\<open>Winner\<close> has a participant. When the callback reads \<^verbatim>\<open>undefined\<close> from the
  eligible list, the record it appends has none, and the render that follows throws
  \<^verbatim>\<open>TypeError\<close> on \<^verbatim>\<open>winner.participant.name\<close>: the callback's result is then
  \<open>Inl TypeError\<close>.
\<close>

definition drawWinner2 :: "Config \<Rightarrow> Browser \<Rightarrow> Browser" where
  "drawWinner2 cfg b =
     (case nextPrize cfg (winners (ui b)) of
        None \<Rightarrow> b
      | Some z \<Rightarrow>
          if length (participants (ui b)) = 0 \<or> appState (ui b) = DRAWING then b
          else b\<lparr>ui := (ui b)\<lparr>appState := DRAWING\<rparr>,
                 timeouts := timeouts b @ [Timeout2 (eligible (participants (ui b)) (winners (ui b))) z
                                             (length (remainingPrizes cfg (winners (ui b))))]\<rparr>)"

definition timeout_callback2 ::
  "Config \<Rightarrow> real \<Rightarrow> int \<Rightarrow> Participant list \<Rightarrow> Prize \<Rightarrow> nat \<Rightarrow> Browser \<Rightarrow> error + Browser" where
  "timeout_callback2 cfg random now elig z remaining b =
     (case random_element random elig of
        None \<Rightarrow> Inl TypeError
      | Some winnerParticipant \<Rightarrow>
          Inr (b\<lparr>ui := (ui b)\<lparr>winners := winners (ui b) @ [newWinner cfg now winnerParticipant z],
                               lastWinner := Some (newWinner cfg now winnerParticipant z),
                               showWinnerModal := True,
                               appState := (if remaining = 1 then FINISHED else READY)\<rparr>,
                 confetti := confetti b @ [isBigWinner z]\<rparr>))"

text \<open>The oldest pending timeout of the second copy runs.\<close>

definition timeout_fires2 :: "Config \<Rightarrow> real \<Rightarrow> int \<Rightarrow> Browser \<Rightarrow> error + Browser" where
  "timeout_fires2 cfg random now b =
     (case timeouts b of
        Timeout2 elig z remaining # ts \<Rightarrow>
          (case timeout_callback2 cfg random now elig z remaining (b\<lparr>timeouts := ts\<rparr>) of
             Inl e \<Rightarrow> Inl e
           | Inr b' \<Rightarrow> Inr (save_effect cfg b'))
      | _ \<Rightarrow> Inr b)"

text \<open>Calls of \<^verbatim>\<open>drawWinner\<close> one after the other, each with its own random number.\<close>

fun drawWinner_calls :: "Config \<Rightarrow> real list \<Rightarrow> Browser \<Rightarrow> error + Browser" where
  "drawWinner_calls cfg [] b = Inr b"
| "drawWinner_calls cfg (random # rs) b =
     (case drawWinner cfg random b of Inl e \<Rightarrow> Inl e | Inr b' \<Rightarrow> drawWinner_calls cfg rs b')"

section \<open>Example configurations\<close>

text \<open>One prize and one participant.\<close>

definition prizeA :: Prize where
  "prizeA = \<lparr>prize_id = 1, prize_rank = 1, prize_name = ''TV'', prize_value = ''1000'',
             prize_icon = ''*'', isBigWinner = True\<rparr>"

definition prizeB :: Prize where
  "prizeB = \<lparr>prize_id = 2, prize_rank = 2, prize_name = ''Mug'', prize_value = ''5'',
             prize_icon = ''+'', isBigWinner = False\<rparr>"

definition config1 :: Config where
  "config1 = \<lparr>PRIZES = [prizeA], APP_STORAGE_KEY = ''zuv'',
              DEFAULT_CONGRATS_MESSAGE = ''Bravo'', DEFAULT_PARTICIPANTS = [''Ann'']\<rparr>"

text \<open>Two prizes and one participant.\<close>

definition config2 :: Config where
  "config2 = \<lparr>PRIZES = [prizeA, prizeB], APP_STORAGE_KEY = ''zuv'',
              DEFAULT_CONGRATS_MESSAGE = ''Bravo'', DEFAULT_PARTICIPANTS = [''Ann'']\<rparr>"

text \<open>Two prizes and no participant.\<close>

definition config0 :: Config where
  "config0 = \<lparr>PRIZES = [prizeA, prizeB], APP_STORAGE_KEY = ''zuv'',
              DEFAULT_CONGRATS_MESSAGE = ''Bravo'', DEFAULT_PARTICIPANTS = []\<rparr>"

definition ann :: Participant where
  "ann = \<lparr>participant_id = ''p-0'', participant_name = ''Ann''\<rparr>"

text \<open>
  The second copy of the component under \<open>config2\<close>, mounted in a browser with no
  cookies, after its first draw has been committed (random number 0, time 5).
\<close>

definition after_first_draw2 :: Browser where
  "after_first_draw2 =
     (case timeout_fires2 config2 0 5 (drawWinner2 config2 (initialBrowser config2 [])) of
        Inr b \<Rightarrow> b
      | Inl e \<Rightarrow> initialBrowser config2 [])"

text \<open>
  The first copy of the component under \<open>config1\<close>, mounted in a browser with no
  cookies: after \<^verbatim>\<open>drawWinner\<close> (random number 0), and after its timeout has run at
  time 5.
\<close>

definition drawing1 :: Browser where
  "drawing1 =
     (initialBrowser config1 [])
       \<lparr>ui := (initialState config1)\<lparr>appState := DRAWING, currentDrawnName := Some ''Ann''\<rparr>,
        timeouts := [Timeout ann prizeA]\<rparr>"

definition committed1 :: Browser where
  "committed1 = save_effect config1 (timeout_callback config1 5 ann prizeA (drawing1\<lparr>timeouts := []\<rparr>))"

section \<open>Notions used in the statements and the proofs\<close>

text \<open>
  A cookie name that the helpers can find again: not empty, and with no semicolon and
  no equals sign. A cookie jar as a browser keeps it: one cookie for a name, and no
  semicolon in a name or a value, no equals sign in a name.
\<close>

definition cookie_name_ok :: "string \<Rightarrow> bool" where
  "cookie_name_ok n = (n \<noteq> [] \<and> CHR '';'' \<notin> set n \<and> CHR ''='' \<notin> set n)"

definition jar_ok :: "cookie_jar \<Rightarrow> bool" where
  "jar_ok jar =
     (distinct (map fst jar) \<and>
      (\<forall>nv \<in> set jar. CHR '';'' \<notin> set (fst nv) \<and> CHR ''='' \<notin> set (fst nv)
                       \<and> CHR '';'' \<notin> set (snd nv)))"

text \<open>The piece of \<^verbatim>\<open>document.cookie\<close> for one cookie.\<close>

definition cookie_piece :: "string \<times> string \<Rightarrow> string" where
  "cookie_piece nv = fst nv @ ''='' @ snd nv"

text \<open>The cookies after the save effect, for the winners \<open>ws\<close>.\<close>

definition saved_jar :: "Config \<Rightarrow> Winner list \<Rightarrow> cookie_jar \<Rightarrow> cookie_jar" where
  "saved_jar cfg ws jar =
     (if ws = [] then jar
      else setCookie (APP_STORAGE_KEY cfg) (JSON_stringify (winners_json ws)) 7 jar)"

text \<open>
  The cookie that holds the winners \<open>ws\<close>, and whether the browser stores it: its
  name and its value together are at most 4096 octets.
\<close>

definition winners_cookie :: "Config \<Rightarrow> Winner list \<Rightarrow> string \<times> string" where
  "winners_cookie cfg ws =
     (APP_STORAGE_KEY cfg, encodeURIComponent (JSON_stringify (winners_json ws)))"

definition record_fits :: "Config \<Rightarrow> Winner list \<Rightarrow> bool" where
  "record_fits cfg ws =
     (utf8_length (fst (winners_cookie cfg ws)) + utf8_length (snd (winners_cookie cfg ws)) \<le> 4096)"


text \<open>
  What may follow a number, and what may follow a value, in a text that
  \<^verbatim>\<open>JSON.stringify\<close> wrote; the characters a value starts with; and the statements of
  the round trip, for a value, for the elements of an array and for the members of
  an object, with the bound on the recursion that each needs.
\<close>

definition number_end :: "string \<Rightarrow> bool" where
  "number_end rest =
     (case rest of [] \<Rightarrow> True
      | c # _ \<Rightarrow> \<not> is_digit c \<and> c \<noteq> CHR ''.'' \<and> c \<noteq> CHR ''e'' \<and> c \<noteq> CHR ''E'')"

definition value_end :: "string \<Rightarrow> bool" where
  "value_end rest =
     (case rest of [] \<Rightarrow> True | c # _ \<Rightarrow> c = CHR '','' \<or> c = CHR '']'' \<or> c = CHR ''}'')"

definition value_start :: "char \<Rightarrow> bool" where
  "value_start c =
     (c = CHR ''n'' \<or> c = CHR ''t'' \<or> c = CHR ''f'' \<or> c = CHR ''-'' \<or> c = CHR 0x22
      \<or> c = CHR ''['' \<or> c = CHR ''{'' \<or> is_digit c)"

definition parses_value :: "json \<Rightarrow> bool" where
  "parses_value v =
     (\<forall>n rest. value_end rest \<longrightarrow> length (JSON_stringify v) \<le> n \<longrightarrow>
        parse_value n (JSON_stringify v @ rest) = Inr (v, rest))"

definition parses_elements :: "json list \<Rightarrow> bool" where
  "parses_elements vs =
     (\<forall>n acc rest. vs \<noteq> [] \<longrightarrow> length (join '','' (stringify_elements vs)) < n \<longrightarrow>
        parse_elements n acc (join '','' (stringify_elements vs) @ CHR '']'' # rest)
          = Inr (JArray (rev acc @ vs), rest))"

definition parses_members :: "(string \<times> json) list \<Rightarrow> bool" where
  "parses_members kvs =
     (\<forall>n acc rest. kvs \<noteq> [] \<longrightarrow> length (join '','' (stringify_members kvs)) < n \<longrightarrow>
        parse_members n acc (join '','' (stringify_members kvs) @ CHR ''}'' # rest)
          = Inr (JObject (rev acc @ kvs), rest))"

text \<open>
  The recursion bound of the parser: with more than twice the length of the text it
  is never reached, and a value that is parsed consumes at least one character.
\<close>

definition fuel_value :: "nat \<Rightarrow> bool" where
  "fuel_value n =
     (\<forall>s. (2 * length s < n \<longrightarrow> parse_value n s \<noteq> Inl OutOfFuel)
          \<and> (\<forall>v r. parse_value n s = Inr (v, r) \<longrightarrow> length r < length s))"

definition fuel_elements :: "nat \<Rightarrow> bool" where
  "fuel_elements n =
     (\<forall>acc s. (2 * length s + 1 < n \<longrightarrow> parse_elements n acc s \<noteq> Inl OutOfFuel)
          \<and> (\<forall>v r. parse_elements n acc s = Inr (v, r) \<longrightarrow> length r < length s))"

definition fuel_members :: "nat \<Rightarrow> bool" where
  "fuel_members n =
     (\<forall>acc s. (2 * length s + 1 < n \<longrightarrow> parse_members n acc s \<noteq> Inl OutOfFuel)
          \<and> (\<forall>v r. parse_members n acc s = Inr (v, r) \<longrightarrow> length r < length s))"

text \<open>
  The invariant of the data model, on a winner list: no two winners share a
  participant id, no two winners share a prize id, and the winners are not more than
  the prizes.
\<close>

definition data_invariant :: "Config \<Rightarrow> Winner list \<Rightarrow> bool" where
  "data_invariant cfg ws =
     (distinct (map (\<lambda>w. participant_id (participant w)) ws)
      \<and> distinct (map (\<lambda>w. prize_id (prize w)) ws)
      \<and> length ws \<le> length (PRIZES cfg))"

text \<open>
  A session: the component is mounted in a browser that holds the cookies \<open>jar\<close>,
  and the events \<open>es\<close> follow.
\<close>

definition session :: "Config \<Rightarrow> cookie_jar \<Rightarrow> Event list \<Rightarrow> error + Browser" where
  "session cfg jar es = (case mount cfg jar of Inl e \<Rightarrow> Inl e | Inr b \<Rightarrow> run cfg es b)"




text \<open>
  The invariant of the reachable states, for the proof: the winners are pairwise
  different in participant and in prize, with prizes of \<open>PRIZES\<close>; a cookie under
  the storage key holds such a winner list, not empty (the list of the state when
  its record fits in a cookie, and otherwise the last list whose record did); and
  at most one timeout is pending, in the state \<open>DRAWING\<close>, for a participant and a
  prize that no winner holds.
\<close>

definition winners_ok :: "Config \<Rightarrow> Winner list \<Rightarrow> bool" where
  "winners_ok cfg ws =
     (distinct (map (\<lambda>w. participant_id (participant w)) ws)
      \<and> distinct (map (\<lambda>w. prize_id (prize w)) ws)
      \<and> prize ` set ws \<subseteq> set (PRIZES cfg))"

definition stored :: "Config \<Rightarrow> Browser \<Rightarrow> bool" where
  "stored cfg b =
     (jar_ok (cookies b) \<and>
      (APP_STORAGE_KEY cfg \<in> fst ` set (cookies b) \<longrightarrow>
         (\<exists>ws. ws \<noteq> [] \<and> winners_ok cfg ws \<and> record_fits cfg ws
               \<and> winners_cookie cfg ws \<in> set (cookies b))))"

definition pending_ok :: "Config \<Rightarrow> Browser \<Rightarrow> bool" where
  "pending_ok cfg b =
     (timeouts b = [] \<or>
      (\<exists>p z. timeouts b = [Timeout p z] \<and> appState (ui b) = DRAWING
         \<and> participant_id p \<notin> (\<lambda>w. participant_id (participant w)) ` set (winners (ui b))
         \<and> z \<in> set (PRIZES cfg)
         \<and> prize_id z \<notin> (\<lambda>w. prize_id (prize w)) ` set (winners (ui b))))"

definition inv :: "Config \<Rightarrow> Browser \<Rightarrow> bool" where
  "inv cfg b = (winners_ok cfg (winners (ui b)) \<and> stored cfg b \<and> pending_ok cfg b)"

section \<open>The platform functions are inverse to each other\<close>

subsection \<open>Hexadecimal digits and URI components\<close>

lemma unhex_hex_upper: "d < 16 \<Longrightarrow> unhex (hex_upper d) = Some d"
proof -
  assume "d < 16"
  then have "d = 0 \<or> d = 1 \<or> d = 2 \<or> d = 3 \<or> d = 4 \<or> d = 5 \<or> d = 6 \<or> d = 7 \<or> d = 8
      \<or> d = 9 \<or> d = 10 \<or> d = 11 \<or> d = 12 \<or> d = 13 \<or> d = 14 \<or> d = 15" by arith
  then show ?thesis by (elim disjE) (simp_all add: unhex_def hex_upper_def)
qed

lemma unhex_hex_lower: "d < 16 \<Longrightarrow> unhex (hex_lower d) = Some d"
proof -
  assume "d < 16"
  then have "d = 0 \<or> d = 1 \<or> d = 2 \<or> d = 3 \<or> d = 4 \<or> d = 5 \<or> d = 6 \<or> d = 7 \<or> d = 8
      \<or> d = 9 \<or> d = 10 \<or> d = 11 \<or> d = 12 \<or> d = 13 \<or> d = 14 \<or> d = 15" by arith
  then show ?thesis by (elim disjE) (simp_all add: unhex_def hex_lower_def)
qed

lemma of_char_div_16: "(of_char c :: nat) div 16 < 16"
proof -
  have "(of_char c :: nat) < 256" by (rule nat_of_char_less_256)
  then show ?thesis by linarith
qed

lemma char_of_div_mod: "char_of (16 * ((of_char c :: nat) div 16) + (of_char c :: nat) mod 16) = c"
proof -
  have "16 * ((of_char c :: nat) div 16) + (of_char c :: nat) mod 16 = of_char c" by simp
  then show ?thesis by (simp only: char_of_char)
qed

lemma percent_reserved: "\<not> uriUnreserved (CHR ''%'')"
  by (simp add: uriUnreserved_def)

lemma hex_octet_hex_upper:
  assumes "b < 256"
  shows "hex_octet (hex_upper (b div 16) # hex_upper (b mod 16) # rest) = Some b"
proof -
  have "b div 16 < 16" using assms by linarith
  moreover have "b mod 16 < 16" by simp
  ultimately show ?thesis by (simp add: hex_octet_def unhex_hex_upper)
qed

lemma continuation_percent:
  assumes "128 \<le> x" and "x < 192"
  shows "continuation (percent x @ rest) = Some x"
proof -
  have "x < 256" using assms(2) by simp
  then show ?thesis using assms by (simp add: continuation_def percent_def hex_octet_hex_upper)
qed

lemma decode_percent_low:
  assumes "b < 128"
  shows "decodeURIComponent (percent b @ rest) =
     (case decodeURIComponent rest of Inl e \<Rightarrow> Inl e | Inr s \<Rightarrow> Inr (char_of b # s))"
proof -
  have "b < 256" using assms by simp
  then show ?thesis using assms by (simp add: percent_def hex_octet_hex_upper)
qed

lemma decode_percent_two:
  assumes "b = 194 \<or> b = 195" and "128 \<le> x" and "x < 192"
  shows "decodeURIComponent (percent b @ percent x @ rest) =
     (case decodeURIComponent rest of
        Inl e \<Rightarrow> Inl e
      | Inr s \<Rightarrow> Inr (char_of (64 * (b - 192) + (x - 128)) # s))"
proof -
  define cs where "cs = hex_upper (b div 16) # hex_upper (b mod 16) # percent x @ rest"
  have b: "b < 256" "\<not> b < 128" "\<not> (b < 194 \<or> 244 < b)" "b < 224" "\<not> 196 \<le> b"
    using assms(1) by auto
  have h: "hex_octet cs = Some b"
    unfolding cs_def by (rule hex_octet_hex_upper[OF b(1)])
  have d: "drop 5 cs = rest"
    by (simp add: cs_def percent_def)
  have c: "continuation (drop 2 cs) = Some x"
    using continuation_percent[OF assms(2,3)] by (simp add: cs_def)
  have "decodeURIComponent (CHR ''%'' # cs) =
     (case decodeURIComponent rest of
        Inl e \<Rightarrow> Inl e
      | Inr s \<Rightarrow> Inr (char_of (64 * (b - 192) + (x - 128)) # s))"
    using b by (simp add: h c d)
  then show ?thesis by (simp add: percent_def[of b] cs_def)
qed

lemma char_of_two_octets:
  assumes "128 \<le> (of_char c :: nat)"
  shows "char_of (64 * (192 + (of_char c :: nat) div 64 - 192) + (128 + (of_char c :: nat) mod 64 - 128)) = c"
proof -
  have "64 * (192 + (of_char c :: nat) div 64 - 192) + (128 + (of_char c :: nat) mod 64 - 128)
          = of_char c" by simp
  then show ?thesis by (simp only: char_of_char)
qed

lemma decode_encode_char:
  "decodeURIComponent (encodeURIComponent_char c @ rest) =
     (case decodeURIComponent rest of Inl e \<Rightarrow> Inl e | Inr s \<Rightarrow> Inr (c # s))"
proof (cases "uriUnreserved c")
  case True
  then have "c \<noteq> CHR ''%''" using percent_reserved by auto
  then show ?thesis using True by (simp add: encodeURIComponent_char_def)
next
  case False
  show ?thesis
  proof (cases "(of_char c :: nat) < 128")
    case True
    show ?thesis
      using False True
      by (simp add: encodeURIComponent_char_def decode_percent_low) (simp only: char_of_char)
  next
    case hi: False
    have lt: "(of_char c :: nat) < 256" by (rule nat_of_char_less_256)
    have 1: "192 + (of_char c :: nat) div 64 = 194 \<or> 192 + (of_char c :: nat) div 64 = 195"
      using hi lt by linarith
    have 2: "128 \<le> 128 + (of_char c :: nat) mod 64" "128 + (of_char c :: nat) mod 64 < 192"
      by simp_all
    have 3: "128 \<le> (of_char c :: nat)" using hi by simp
    show ?thesis
      using False hi
      by (simp add: encodeURIComponent_char_def decode_percent_two[OF 1 2])
         (simp only: char_of_two_octets[OF 3])
  qed
qed

lemma decode_encode_append:
  "decodeURIComponent (encodeURIComponent s @ rest) =
     (case decodeURIComponent rest of Inl e \<Rightarrow> Inl e | Inr t \<Rightarrow> Inr (s @ t))"
proof (induction s)
  case Nil
  then show ?case by (simp add: encodeURIComponent_def split: sum.splits)
next
  case (Cons c s)
  have "encodeURIComponent (c # s) @ rest = encodeURIComponent_char c @ (encodeURIComponent s @ rest)"
    by (simp add: encodeURIComponent_def)
  then show ?case using Cons by (simp add: decode_encode_char split: sum.splits)
qed

lemma decodeURIComponent_encodeURIComponent:
  "decodeURIComponent (encodeURIComponent s) = Inr s"
  using decode_encode_append[of s "[]"] by simp


declare digits.simps [simp del]

subsection \<open>Decimal digits\<close>

lemma digit_cases:
  "d < 10 \<Longrightarrow> d = 0 \<or> d = 1 \<or> d = 2 \<or> d = 3 \<or> d = 4 \<or> d = 5 \<or> d = 6 \<or> d = 7 \<or> d = 8 \<or> d = (9::nat)"
  by arith

lemma of_char_digit_char: "d < 10 \<Longrightarrow> (of_char (digit_char d) :: nat) = 48 + d"
  by (drule digit_cases) (elim disjE, simp_all add: digit_char_def)

lemma is_digit_digit_char: "d < 10 \<Longrightarrow> is_digit (digit_char d)"
  by (simp add: is_digit_def of_char_digit_char)

lemma digit_char_zero: "d < 10 \<Longrightarrow> digit_char d = CHR ''0'' \<longleftrightarrow> d = 0"
proof -
  assume d: "d < 10"
  have "digit_char d = CHR ''0'' \<longleftrightarrow> (of_char (digit_char d) :: nat) = of_char (CHR ''0'')"
    by (simp only: of_char_eq_iff)
  also have "\<dots> \<longleftrightarrow> d = 0" using d by (simp add: of_char_digit_char)
  finally show ?thesis .
qed

lemma digits_all_digit: "c \<in> set (digits n) \<Longrightarrow> is_digit c"
proof (induction n arbitrary: c rule: digits.induct)
  case (1 n)
  show ?case
  proof (cases "n < 10")
    case True
    with "1.prems" show ?thesis by (simp add: digits.simps[of n] is_digit_digit_char)
  next
    case False
    with "1.prems" "1.IH" show ?thesis
      by (auto simp: digits.simps[of n] is_digit_digit_char)
  qed
qed

lemma digits_not_Nil: "digits n \<noteq> []"
  by (simp add: digits.simps[of n])

lemma digits_value_snoc:
  "digits_value (ds @ [c]) = 10 * digits_value ds + ((of_char c :: nat) - 48)"
  by (simp add: digits_value_def)

lemma digits_value_digits: "digits_value (digits n) = n"
proof (induction n rule: digits.induct)
  case (1 n)
  show ?case
  proof (cases "n < 10")
    case True
    then show ?thesis by (simp add: digits.simps[of n] digits_value_def of_char_digit_char)
  next
    case False
    with "1.IH" show ?thesis
      by (simp add: digits.simps[of n] digits_value_snoc of_char_digit_char)
  qed
qed

lemma hd_digits_zero: "hd (digits n) = CHR ''0'' \<Longrightarrow> n = 0"
proof (induction n rule: digits.induct)
  case (1 n)
  show ?case
  proof (cases "n < 10")
    case True
    with "1.prems" show ?thesis by (simp add: digits.simps[of n] digit_char_zero)
  next
    case False
    then have "hd (digits n) = hd (digits (n div 10))"
      by (simp add: digits.simps[of n] digits_not_Nil)
    with "1.IH" False "1.prems" have "n div 10 = 0" by simp
    with False show ?thesis by simp
  qed
qed

lemma digits_zero: "digits 0 = ''0''"
  by (simp add: digits.simps[of 0] digit_char_def)

lemma no_leading_zero: "\<not> (hd (digits n) = CHR ''0'' \<and> 1 < length (digits n))"
  using hd_digits_zero[of n] by (auto simp: digits_zero)

lemma is_digit_hd_digits: "is_digit (hd (digits n))"
  using digits_all_digit[of "hd (digits n)" n] digits_not_Nil[of n] by simp

lemma minus_not_digit: "\<not> is_digit (CHR ''-'')"
  by (simp add: is_digit_def)

lemma takeWhile_digits:
  assumes "rest = [] \<or> \<not> is_digit (hd rest)"
  shows "takeWhile is_digit (digits n @ rest) = digits n"
    and "dropWhile is_digit (digits n @ rest) = rest"
proof -
  have a: "\<forall>c \<in> set (digits n). is_digit c" using digits_all_digit by blast
  have t: "takeWhile is_digit rest = []" using assms by (cases rest) auto
  have d: "dropWhile is_digit rest = rest" using assms by (cases rest) auto
  show "takeWhile is_digit (digits n @ rest) = digits n"
    using a t by (simp add: takeWhile_append2)
  show "dropWhile is_digit (digits n @ rest) = rest"
    using a d by (simp add: dropWhile_append2)
qed

lemma parse_number_digits:
  assumes "number_end rest"
  shows "parse_number (digits n @ rest) = Inr (int n, rest)"
proof -
  have r: "rest = [] \<or> \<not> is_digit (hd rest)"
    using assms by (cases rest) (auto simp: number_end_def)
  obtain d ds where dd: "digits n = d # ds" using digits_not_Nil[of n] by (cases "digits n") auto
  have "is_digit d" using is_digit_hd_digits[of n] dd by simp
  then have dm: "d \<noteq> CHR ''-''" using minus_not_digit by auto
  have neg: "(case digits n @ rest of [] \<Rightarrow> False | c # _ \<Rightarrow> c = CHR ''-'') = False"
    using dd dm by simp
  have e: "\<not> (case rest of [] \<Rightarrow> False | c # _ \<Rightarrow> c = CHR ''.'' \<or> c = CHR ''e'' \<or> c = CHR ''E'')"
    using assms by (cases rest) (auto simp: number_end_def)
  show ?thesis
    unfolding parse_number_def Let_def neg
    using e no_leading_zero[of n]
    by (simp add: takeWhile_digits[OF r] digits_not_Nil digits_value_digits)
qed

lemma parse_number_Number_toString:
  assumes "number_end rest"
  shows "parse_number (Number_toString k @ rest) = Inr (k, rest)"
proof (cases "k < 0")
  case False
  then show ?thesis using parse_number_digits[OF assms, of "nat k"]
    by (simp add: Number_toString_def)
next
  case True
  have r: "rest = [] \<or> \<not> is_digit (hd rest)"
    using assms by (cases rest) (auto simp: number_end_def)
  have e: "\<not> (case rest of [] \<Rightarrow> False | c # _ \<Rightarrow> c = CHR ''.'' \<or> c = CHR ''e'' \<or> c = CHR ''E'')"
    using assms by (cases rest) (auto simp: number_end_def)
  have "parse_number (CHR ''-'' # digits (nat (- k)) @ rest) = Inr (- int (nat (- k)), rest)"
    unfolding parse_number_def Let_def
    using e no_leading_zero[of "nat (- k)"]
    by (simp add: takeWhile_digits[OF r] digits_not_Nil digits_value_digits)
  then show ?thesis using True by (simp add: Number_toString_def)
qed


subsection \<open>String literals\<close>

lemma of_char_eq_numeral: "(of_char c :: nat) = of_char d \<Longrightarrow> c = d"
  by simp

lemma unhex_zero: "unhex (CHR ''0'') = Some 0"
  by (simp add: unhex_def)

lemma parse_hex4_control:
  assumes "n < 32"
  shows "parse_hex4 (CHR ''0'' # CHR ''0'' # hex_lower (n div 16) # hex_lower (n mod 16) # rest)
           = Some (n, rest)"
proof -
  have "n div 16 < 16" using assms by simp
  then show ?thesis
    by (simp add: parse_hex4_def unhex_zero unhex_hex_lower)
qed

lemma parse_string_quote_char:
  "parse_string (quote_char c @ rest) =
     (case parse_string rest of Inl e \<Rightarrow> Inl e | Inr (s, r) \<Rightarrow> Inr (c # s, r))"
proof -
  let ?n = "of_char c :: nat"
  consider (q) "c = CHR 0x22" | (b) "c = CHR 0x5C"
    | (c8) "?n = 8" | (c12) "?n = 12" | (c10) "?n = 10" | (c13) "?n = 13" | (c9) "?n = 9"
    | (ctl) "c \<noteq> CHR 0x22" "c \<noteq> CHR 0x5C" "?n \<noteq> 8" "?n \<noteq> 12" "?n \<noteq> 10" "?n \<noteq> 13" "?n \<noteq> 9" "?n < 32"
    | (plain) "c \<noteq> CHR 0x22" "c \<noteq> CHR 0x5C" "\<not> ?n < 32"
    by linarith
  then show ?thesis
  proof cases
    case q
    then show ?thesis by (simp add: quote_char_def unescape_def split: sum.splits)
  next
    case b
    then show ?thesis by (simp add: quote_char_def unescape_def split: sum.splits)
  next
    case c8
    then have "c = CHR 0x08" by (intro of_char_eq_numeral) simp
    then show ?thesis by (simp add: quote_char_def unescape_def split: sum.splits)
  next
    case c12
    then have "c = CHR 0x0C" by (intro of_char_eq_numeral) simp
    then show ?thesis by (simp add: quote_char_def unescape_def split: sum.splits)
  next
    case c10
    then have "c = CHR 0x0A" by (intro of_char_eq_numeral) simp
    then show ?thesis by (simp add: quote_char_def unescape_def split: sum.splits)
  next
    case c13
    then have "c = CHR 0x0D" by (intro of_char_eq_numeral) simp
    then show ?thesis by (simp add: quote_char_def unescape_def split: sum.splits)
  next
    case c9
    then have "c = CHR 0x09" by (intro of_char_eq_numeral) simp
    then show ?thesis by (simp add: quote_char_def unescape_def split: sum.splits)
  next
    case ctl
    have q: "quote_char c = [CHR 0x5C, CHR ''u'', CHR ''0'', CHR ''0'', hex_lower (?n div 16), hex_lower (?n mod 16)]"
      using ctl by (simp add: quote_char_def Let_def)
    have "char_of ?n = c" by simp
    then show ?thesis
      unfolding q using ctl(8)
      by (simp add: parse_hex4_control split: sum.splits)
  next
    case plain
    then show ?thesis by (simp add: quote_char_def split: sum.splits)
  qed
qed

lemma parse_string_quoted:
  "parse_string (concat (map quote_char s) @ CHR 0x22 # rest) = Inr (s, rest)"
  by (induction s) (simp_all add: parse_string_quote_char)

lemma quote_eq: "quote s @ rest = CHR 0x22 # concat (map quote_char s) @ CHR 0x22 # rest"
  by (simp add: quote_def)


subsection \<open>Values\<close>

lemma value_end_simps [simp]:
  "value_end []" "value_end (CHR '','' # r)" "value_end (CHR '']'' # r)" "value_end (CHR ''}'' # r)"
  by (simp_all add: value_end_def)

lemma value_end_number_end: "value_end rest \<Longrightarrow> number_end rest"
  by (cases rest) (auto simp: value_end_def number_end_def is_digit_def)

lemma value_start_not:
  assumes "value_start c"
  shows "\<not> is_ws c" "c \<noteq> CHR '']''" "c \<noteq> CHR ''}''"
  using assms by (auto simp: value_start_def is_ws_def is_digit_def)

lemma skip_ws_no_ws: "\<not> is_ws c \<Longrightarrow> skip_ws (c # cs) = c # cs"
  by (simp add: skip_ws_def)

lemma skip_ws_punct [simp]:
  "skip_ws (CHR '','' # r) = CHR '','' # r"
  "skip_ws (CHR '']'' # r) = CHR '']'' # r"
  "skip_ws (CHR ''}'' # r) = CHR ''}'' # r"
  "skip_ws (CHR '':'' # r) = CHR '':'' # r"
  "skip_ws (CHR 0x22 # r) = CHR 0x22 # r"
  "skip_ws (CHR ''['' # r) = CHR ''['' # r"
  "skip_ws (CHR ''{'' # r) = CHR ''{'' # r"
  "skip_ws (CHR ''n'' # r) = CHR ''n'' # r"
  "skip_ws (CHR ''t'' # r) = CHR ''t'' # r"
  "skip_ws (CHR ''f'' # r) = CHR ''f'' # r"
  by (simp_all add: skip_ws_def is_ws_def)

lemma Number_toString_start:
  "\<exists>c r. Number_toString k = c # r \<and> (c = CHR ''-'' \<or> is_digit c)"
proof (cases "k < 0")
  case True
  then show ?thesis by (simp add: Number_toString_def)
next
  case False
  obtain d ds where "digits (nat k) = d # ds"
    using digits_not_Nil[of "nat k"] by (cases "digits (nat k)") auto
  moreover from this have "is_digit d" using is_digit_hd_digits[of "nat k"] by simp
  ultimately show ?thesis using False by (simp add: Number_toString_def)
qed

lemma JSON_stringify_start: "\<exists>c r. JSON_stringify v = c # r \<and> value_start c"
proof (cases v)
  case (JNumber k)
  then show ?thesis using Number_toString_start[of k] by (auto simp: value_start_def)
qed (auto simp: value_start_def quote_def)

lemma digit_not_punct:
  assumes "c = CHR ''-'' \<or> is_digit c"
  shows "c \<noteq> CHR ''{''" "c \<noteq> CHR ''[''" "c \<noteq> CHR 0x22" "c \<noteq> CHR ''t''" "c \<noteq> CHR ''f''"
    "c \<noteq> CHR ''n''" "\<not> is_ws c"
  using assms by (auto simp: is_digit_def is_ws_def)

lemma parse_value_JNull:
  "parse_value (Suc n) (JSON_stringify JNull @ rest) = Inr (JNull, rest)"
  by (simp add: parse_literal_def)

lemma parse_value_JBool:
  "parse_value (Suc n) (JSON_stringify (JBool b) @ rest) = Inr (JBool b, rest)"
  by (simp add: parse_literal_def)

lemma parse_value_JString:
  "parse_value (Suc n) (JSON_stringify (JString s) @ rest) = Inr (JString s, rest)"
  by (simp add: quote_eq parse_string_quoted)

lemma parse_value_JNumber:
  assumes "value_end rest"
  shows "parse_value (Suc n) (JSON_stringify (JNumber k) @ rest) = Inr (JNumber k, rest)"
proof -
  obtain c r where cr: "Number_toString k = c # r" "c = CHR ''-'' \<or> is_digit c"
    using Number_toString_start[of k] by auto
  note np = digit_not_punct[OF cr(2)]
  have "parse_number (c # r @ rest) = Inr (k, rest)"
    using parse_number_Number_toString[OF value_end_number_end[OF assms], of k] cr(1) by simp
  then show ?thesis using cr np by (simp add: skip_ws_no_ws)
qed


lemma join_Cons:
  "join sep (x # xs) = (if xs = [] then x else x @ sep @ join sep xs)"
  by (cases xs) simp_all

lemma stringify_elements_Nil_iff: "stringify_elements vs = [] \<longleftrightarrow> vs = []"
  by (cases vs) simp_all

lemma stringify_members_Nil_iff: "stringify_members kvs = [] \<longleftrightarrow> kvs = []"
  by (cases kvs) simp_all

lemma join_elements_start:
  "vs \<noteq> [] \<Longrightarrow> \<exists>c r. join '','' (stringify_elements vs) = c # r \<and> value_start c"
proof (cases vs)
  case (Cons v vs')
  obtain c r where "JSON_stringify v = c # r" "value_start c"
    using JSON_stringify_start[of v] by auto
  then show ?thesis using Cons by (auto simp: join_Cons stringify_elements_Nil_iff)
qed simp

lemma join_members_start:
  "kvs \<noteq> [] \<Longrightarrow> \<exists>r. join '','' (stringify_members kvs) = CHR 0x22 # r"
proof (cases kvs)
  case (Cons kv kvs')
  then show ?thesis by (auto simp: join_Cons stringify_members_Nil_iff quote_def)
qed simp

lemma parses_value_atoms:
  "parses_value JNull" "parses_value (JBool b)" "parses_value (JNumber k)" "parses_value (JString s)"
proof -
  have pos: "\<And>v n. length (JSON_stringify v) \<le> n \<Longrightarrow> \<exists>m. n = Suc m"
  proof -
    fix v n assume "length (JSON_stringify v) \<le> n"
    moreover obtain c r where "JSON_stringify v = c # r" using JSON_stringify_start[of v] by auto
    ultimately show "\<exists>m. n = Suc m" by (cases n) auto
  qed
  show "parses_value JNull"
    unfolding parses_value_def using pos[of JNull] parse_value_JNull by metis
  show "parses_value (JBool b)"
    unfolding parses_value_def using pos[of "JBool b"] parse_value_JBool by metis
  show "parses_value (JNumber k)"
    unfolding parses_value_def using pos[of "JNumber k"] parse_value_JNumber by metis
  show "parses_value (JString s)"
    unfolding parses_value_def using pos[of "JString s"] parse_value_JString by metis
qed

lemma parses_value_JArray:
  assumes "parses_elements vs"
  shows "parses_value (JArray vs)"
  unfolding parses_value_def
proof (intro allI impI)
  fix n rest
  assume re: "value_end rest" and len: "length (JSON_stringify (JArray vs)) \<le> n"
  let ?J = "join '','' (stringify_elements vs)"
  from len obtain m where n: "n = Suc m" and m: "length ?J < m" by (cases n) auto
  show "parse_value n (JSON_stringify (JArray vs) @ rest) = Inr (JArray vs, rest)"
  proof (cases "vs = []")
    case True
    then show ?thesis by (simp add: n)
  next
    case False
    then obtain c r where cr: "?J = c # r" "value_start c" using join_elements_start by blast
    note vs = value_start_not[OF cr(2)]
    have "parse_elements m [] (?J @ CHR '']'' # rest) = Inr (JArray vs, rest)"
      using assms False m unfolding parses_elements_def by force
    then show ?thesis using cr vs by (simp add: n skip_ws_no_ws)
  qed
qed

lemma parses_value_JObject:
  assumes "parses_members kvs"
  shows "parses_value (JObject kvs)"
  unfolding parses_value_def
proof (intro allI impI)
  fix n rest
  assume re: "value_end rest" and len: "length (JSON_stringify (JObject kvs)) \<le> n"
  let ?J = "join '','' (stringify_members kvs)"
  from len obtain m where n: "n = Suc m" and m: "length ?J < m" by (cases n) auto
  show "parse_value n (JSON_stringify (JObject kvs) @ rest) = Inr (JObject kvs, rest)"
  proof (cases "kvs = []")
    case True
    then show ?thesis by (simp add: n)
  next
    case False
    then obtain r where cr: "?J = CHR 0x22 # r" using join_members_start by blast
    have "parse_members m [] (?J @ CHR ''}'' # rest) = Inr (JObject kvs, rest)"
      using assms False m unfolding parses_members_def by force
    then show ?thesis using cr by (simp add: n)
  qed
qed

lemma parses_elements_Cons:
  assumes v: "parses_value v" and vs: "parses_elements vs"
  shows "parses_elements (v # vs)"
  unfolding parses_elements_def
proof (intro allI impI)
  fix n acc rest
  let ?sv = "JSON_stringify v"
  let ?J = "join '','' (stringify_elements vs)"
  assume len: "length (join '','' (stringify_elements (v # vs))) < n"
  then obtain m where n: "n = Suc m" by (cases n) auto
  show "parse_elements n acc (join '','' (stringify_elements (v # vs)) @ CHR '']'' # rest)
          = Inr (JArray (rev acc @ v # vs), rest)"
  proof (cases "vs = []")
    case True
    then have j: "join '','' (stringify_elements (v # vs)) = ?sv" by simp
    have "length ?sv \<le> m" using len j n by simp
    then have "parse_value m (?sv @ CHR '']'' # rest) = Inr (v, CHR '']'' # rest)"
      using v unfolding parses_value_def by simp
    then show ?thesis using True by (simp add: n)
  next
    case False
    then have j: "join '','' (stringify_elements (v # vs)) = ?sv @ CHR '','' # ?J"
      by (simp add: join_Cons stringify_elements_Nil_iff)
    have l1: "length ?sv \<le> m" and l2: "length ?J < m" using len j n by simp_all
    have p: "parse_value m (?sv @ CHR '','' # ?J @ CHR '']'' # rest) = Inr (v, CHR '','' # ?J @ CHR '']'' # rest)"
      using v l1 unfolding parses_value_def by simp
    have q: "parse_elements m (v # acc) (?J @ CHR '']'' # rest) = Inr (JArray (rev (v # acc) @ vs), rest)"
      using vs False l2 unfolding parses_elements_def by blast
    have "parse_elements (Suc m) acc ((?sv @ CHR '','' # ?J) @ CHR '']'' # rest)
            = Inr (JArray (rev acc @ v # vs), rest)"
      using p q by simp
    then show ?thesis unfolding n j .
  qed
qed

lemma parses_members_Cons:
  assumes v: "parses_value (snd kv)" and kvs: "parses_members kvs"
  shows "parses_members (kv # kvs)"
  unfolding parses_members_def
proof (intro allI impI)
  fix n acc rest
  let ?sv = "JSON_stringify (snd kv)"
  let ?k = "concat (map quote_char (fst kv))"
  let ?J = "join '','' (stringify_members kvs)"
  assume len: "length (join '','' (stringify_members (kv # kvs))) < n"
  then obtain m where n: "n = Suc m" by (cases n) auto
  have kv: "kv = (fst kv, snd kv)" by simp
  show "parse_members n acc (join '','' (stringify_members (kv # kvs)) @ CHR ''}'' # rest)
          = Inr (JObject (rev acc @ kv # kvs), rest)"
  proof (cases "kvs = []")
    case True
    then have j: "join '','' (stringify_members (kv # kvs)) = CHR 0x22 # ?k @ CHR 0x22 # CHR '':'' # ?sv"
      by (simp add: quote_def)
    have "length ?sv \<le> m" using len j n by simp
    then have "parse_value m (?sv @ CHR ''}'' # rest) = Inr (snd kv, CHR ''}'' # rest)"
      using v unfolding parses_value_def by simp
    then have "parse_members (Suc m) acc ((CHR 0x22 # ?k @ CHR 0x22 # CHR '':'' # ?sv) @ CHR ''}'' # rest)
            = Inr (JObject (rev acc @ [(fst kv, snd kv)]), rest)"
      by (simp add: parse_string_quoted)
    then show ?thesis unfolding n j using True by simp
  next
    case False
    then have j: "join '','' (stringify_members (kv # kvs))
        = CHR 0x22 # ?k @ CHR 0x22 # CHR '':'' # ?sv @ CHR '','' # ?J"
      by (simp add: join_Cons stringify_members_Nil_iff quote_def)
    have l1: "length ?sv \<le> m" and l2: "length ?J < m" using len j n by simp_all
    have p: "parse_value m (?sv @ CHR '','' # ?J @ CHR ''}'' # rest) = Inr (snd kv, CHR '','' # ?J @ CHR ''}'' # rest)"
      using v l1 unfolding parses_value_def by simp
    have q: "parse_members m (kv # acc) (?J @ CHR ''}'' # rest) = Inr (JObject (rev (kv # acc) @ kvs), rest)"
      using kvs False l2 unfolding parses_members_def by blast
    have "parse_members (Suc m) acc
             ((CHR 0x22 # ?k @ CHR 0x22 # CHR '':'' # ?sv @ CHR '','' # ?J) @ CHR ''}'' # rest)
            = Inr (JObject (rev acc @ (fst kv, snd kv) # kvs), rest)"
      using p q by (simp add: parse_string_quoted)
    then show ?thesis unfolding n j by simp
  qed
qed

lemma parses_all:
  "parses_value v" "parses_elements vs" "parses_members kvs"
proof (induction v and vs and kvs rule: JSON_stringify_stringify_elements_stringify_members.induct)
  case (5 xs)
  then show ?case by (rule parses_value_JArray)
next
  case (6 kvs)
  then show ?case by (rule parses_value_JObject)
next
  case 7
  show ?case by (simp add: parses_elements_def)
next
  case (8 v vs)
  then show ?case by (rule parses_elements_Cons)
next
  case 9
  show ?case by (simp add: parses_members_def)
next
  case (10 kv kvs)
  then show ?case by (rule parses_members_Cons)
qed (rule parses_value_atoms)+

theorem JSON_parse_stringify: "JSON_parse (JSON_stringify v) = Inr v"
proof -
  have "value_end [] \<longrightarrow> length (JSON_stringify v) \<le> Suc (2 * length (JSON_stringify v)) \<longrightarrow>
          parse_value (Suc (2 * length (JSON_stringify v))) (JSON_stringify v @ []) = Inr (v, [])"
    using parses_all(1)[of v] unfolding parses_value_def by blast
  then have "parse_value (Suc (2 * length (JSON_stringify v))) (JSON_stringify v) = Inr (v, [])"
    by (simp del: parse_value.simps)
  then show ?thesis by (simp add: JSON_parse_def skip_ws_def del: parse_value.simps)
qed


subsection \<open>The recursion bound of the parser is never reached\<close>

lemma length_skip_ws: "length (skip_ws s) \<le> length s"
  by (simp add: skip_ws_def length_dropWhile_le)

lemma skip_ws_Cons_length: "skip_ws s = c # cs \<Longrightarrow> length cs < length s"
  using length_skip_ws[of s] by simp

lemma parse_hex4_rest: "parse_hex4 s = Some (n, r) \<Longrightarrow> r = drop 4 s"
  by (auto simp: parse_hex4_def split: list.splits option.splits)

lemma parse_string_consumes:
  "parse_string s = Inr (k, r) \<Longrightarrow> length r < length s"
proof (induction s arbitrary: k r rule: parse_string.induct)
  case 1
  then show ?case by simp
next
  case (2 c cs)
  show ?case
  proof (cases "c = CHR 0x22")
    case True
    with "2.prems" show ?thesis by simp
  next
    case nq: False
    show ?thesis
    proof (cases "c = CHR 0x5C")
      case True
      show ?thesis
      proof (cases cs)
        case Nil
        with "2.prems" nq True show ?thesis by simp
      next
        case (Cons e rest)
        show ?thesis
        proof (cases "e = CHR ''u''")
          case u: True
          from "2.prems" nq True Cons u obtain n rest' s' where
            h: "parse_hex4 rest = Some (n, rest')" "\<not> 256 \<le> n"
               "parse_string (drop 4 rest) = Inr (s', r)"
            by (auto split: option.splits if_splits sum.splits)
          from "2.IH"(1)[OF nq True Cons u h(1) refl h(2) h(3)]
          have "length r < length (drop 4 rest)" .
          then show ?thesis using Cons by simp
        next
          case nu: False
          from "2.prems" nq True Cons nu obtain d s' where
            h: "unescape e = Some d" "parse_string rest = Inr (s', r)"
            by (auto split: option.splits sum.splits)
          from "2.IH"(2)[OF nq True Cons nu h(1) h(2)]
          have "length r < length rest" .
          then show ?thesis using Cons by simp
        qed
      qed
    next
      case nb: False
      from "2.prems" nq nb obtain s' where
        h: "\<not> (of_char c :: nat) < 32" "parse_string cs = Inr (s', r)"
        by (auto split: if_splits sum.splits)
      from "2.IH"(3)[OF nq nb h(1) h(2)] show ?thesis by simp
    qed
  qed
qed

lemma parse_string_fuel: "parse_string s \<noteq> Inl OutOfFuel"
proof (induction s rule: parse_string.induct)
  case 1
  then show ?case by simp
next
  case (2 c cs)
  show ?case
  proof (cases "c = CHR 0x22")
    case True
    then show ?thesis by simp
  next
    case nq: False
    show ?thesis
    proof (cases "c = CHR 0x5C")
      case True
      show ?thesis
      proof (cases cs)
        case Nil
        with nq True show ?thesis by simp
      next
        case (Cons e rest)
        show ?thesis
        proof (cases "e = CHR ''u''")
          case u: True
          show ?thesis
          proof (cases "parse_hex4 rest")
            case None
            with nq True Cons u show ?thesis by simp
          next
            case (Some nr)
            obtain n rest' where nr: "nr = (n, rest')" by (cases nr)
            show ?thesis
            proof (cases "256 \<le> n")
              case t: True
              with nq True Cons u Some nr show ?thesis by simp
            next
              case f: False
              from "2.IH"(1)[OF nq True Cons u Some[unfolded nr] refl f]
              show ?thesis using nq True Cons u Some nr f by (auto split: sum.splits)
            qed
          qed
        next
          case nu: False
          show ?thesis
          proof (cases "unescape e")
            case None
            with nq True Cons nu show ?thesis by simp
          next
            case (Some d)
            from "2.IH"(2)[OF nq True Cons nu Some]
            show ?thesis using nq True Cons nu Some by (auto split: sum.splits)
          qed
        qed
      qed
    next
      case nb: False
      show ?thesis
      proof (cases "(of_char c :: nat) < 32")
        case True
        with nq nb show ?thesis by simp
      next
        case False
        from "2.IH"(3)[OF nq nb False]
        show ?thesis using nq nb False by (auto split: sum.splits)
      qed
    qed
  qed
qed

lemma parse_number_consumes:
  "parse_number s = Inr (k, r) \<Longrightarrow> length r < length s"
proof -
  assume a: "parse_number s = Inr (k, r)"
  define s1 where "s1 = (if (case s of [] \<Rightarrow> False | c # _ \<Rightarrow> c = CHR ''-'') then tl s else s)"
  from a have "takeWhile is_digit s1 \<noteq> []" and "r = dropWhile is_digit s1"
    by (auto simp: parse_number_def Let_def s1_def split: if_splits)
  moreover have "length (takeWhile is_digit s1) + length (dropWhile is_digit s1) = length s1"
    by (metis takeWhile_dropWhile_id length_append)
  ultimately have "length r < length s1" by (cases "takeWhile is_digit s1") auto
  moreover have "length s1 \<le> length s" by (simp add: s1_def)
  ultimately show ?thesis by simp
qed

lemma parse_number_fuel: "parse_number s \<noteq> Inl OutOfFuel"
  by (auto simp: parse_number_def Let_def)

lemma parse_literal_consumes:
  "parse_literal w v s = Inr (v', r) \<Longrightarrow> w \<noteq> [] \<Longrightarrow> length r < length s"
proof -
  assume a: "parse_literal w v s = Inr (v', r)" and w: "w \<noteq> []"
  then have t: "take (length w) s = w" and r: "r = drop (length w) s"
    by (auto simp: parse_literal_def split: if_splits)
  have "length (take (length w) s) = length w" using t by simp
  then have "length w \<le> length s" by simp
  then show ?thesis using r w by (cases w) auto
qed

lemma parse_literal_fuel: "parse_literal w v s \<noteq> Inl OutOfFuel"
  by (simp add: parse_literal_def)

lemma parse_value_Suc_cases:
  assumes "skip_ws s = c # cs"
  obtains
    (obj_empty) r where "skip_ws cs = CHR ''}'' # r" "parse_value (Suc n) s = Inr (JObject [], r)"
  | (obj) "parse_value (Suc n) s = parse_members n [] cs"
  | (arr_empty) r where "skip_ws cs = CHR '']'' # r" "parse_value (Suc n) s = Inr (JArray [], r)"
  | (arr) "parse_value (Suc n) s = parse_elements n [] cs"
  | (str) "parse_value (Suc n) s =
            (case parse_string cs of Inl e \<Rightarrow> Inl e | Inr (str, r) \<Rightarrow> Inr (JString str, r))"
  | (lit) w v0 where "w \<noteq> []" "parse_value (Suc n) s = parse_literal w v0 (c # cs)"
  | (num) "parse_value (Suc n) s =
            (case parse_number (c # cs) of Inl e \<Rightarrow> Inl e | Inr (k, r) \<Rightarrow> Inr (JNumber k, r))"
  | (err) "parse_value (Suc n) s = Inl SyntaxError"
proof -
  have pv: "parse_value (Suc n) s =
     (if c = CHR ''{'' then
            (case skip_ws cs of
               [] \<Rightarrow> Inl SyntaxError
             | d # r \<Rightarrow> if d = CHR ''}'' then Inr (JObject [], r) else parse_members n [] cs)
          else if c = CHR ''['' then
            (case skip_ws cs of
               [] \<Rightarrow> Inl SyntaxError
             | d # r \<Rightarrow> if d = CHR '']'' then Inr (JArray [], r) else parse_elements n [] cs)
          else if c = CHR 0x22 then
            (case parse_string cs of
               Inl e \<Rightarrow> Inl e
             | Inr (str, r) \<Rightarrow> Inr (JString str, r))
          else if c = CHR ''t'' then parse_literal ''true'' (JBool True) (c # cs)
          else if c = CHR ''f'' then parse_literal ''false'' (JBool False) (c # cs)
          else if c = CHR ''n'' then parse_literal ''null'' JNull (c # cs)
          else if c = CHR ''-'' \<or> is_digit c then
            (case parse_number (c # cs) of
               Inl e \<Rightarrow> Inl e
             | Inr (k, r) \<Rightarrow> Inr (JNumber k, r))
          else Inl SyntaxError)"
    using assms by simp
  show thesis
  proof (cases "c = CHR ''{''")
    case True
    show thesis
    proof (cases "skip_ws cs")
      case Nil
      with pv True show thesis by (intro err) simp
    next
      case (Cons d r)
      show thesis
      proof (cases "d = CHR ''}''")
        case T: True
        with pv True Cons show thesis by (intro obj_empty[of r]) simp_all
      next
        case False
        with pv True Cons show thesis by (intro obj) simp
      qed
    qed
  next
    case no: False
    show thesis
    proof (cases "c = CHR ''[''")
      case True
      show thesis
      proof (cases "skip_ws cs")
        case Nil
        with pv no True show thesis by (intro err) simp
      next
        case (Cons d r)
        show thesis
        proof (cases "d = CHR '']''")
          case T: True
          with pv no True Cons show thesis by (intro arr_empty[of r]) simp_all
        next
          case False
          with pv no True Cons show thesis by (intro arr) simp
        qed
      qed
    next
      case na: False
      show thesis
      proof (cases "c = CHR 0x22")
        case True
        with pv no na show thesis by (intro str) simp
      next
        case ns: False
        show thesis
        proof (cases "c = CHR ''t''")
          case True
          with pv no na ns show thesis by (intro lit[of "''true''" "JBool True"]) simp_all
        next
          case nt: False
          show thesis
          proof (cases "c = CHR ''f''")
            case True
            with pv no na ns nt show thesis by (intro lit[of "''false''" "JBool False"]) simp_all
          next
            case nf: False
            show thesis
            proof (cases "c = CHR ''n''")
              case True
              with pv no na ns nt nf show thesis by (intro lit[of "''null''" JNull]) simp_all
            next
              case nn: False
              show thesis
              proof (cases "c = CHR ''-'' \<or> is_digit c")
                case True
                with pv no na ns nt nf nn show thesis by (intro num) simp
              next
                case False
                with pv no na ns nt nf nn show thesis by (intro err) simp
              qed
            qed
          qed
        qed
      qed
    qed
  qed
qed

lemma fuel_value_Suc:
  assumes e: "fuel_elements n" and m: "fuel_members n"
  shows "fuel_value (Suc n)"
  unfolding fuel_value_def
proof (intro allI)
  fix s
  show "(2 * length s < Suc n \<longrightarrow> parse_value (Suc n) s \<noteq> Inl OutOfFuel)
        \<and> (\<forall>v r. parse_value (Suc n) s = Inr (v, r) \<longrightarrow> length r < length s)"
  proof (cases "skip_ws s")
    case Nil
    then show ?thesis by simp
  next
    case (Cons c cs)
    have G: "Suc (length cs) \<le> length s" using skip_ws_Cons_length[OF Cons] by simp
    have A: "\<And>v r. parse_members n [] cs = Inr (v, r) \<Longrightarrow> length r < length cs"
      using m by (simp add: fuel_members_def)
    have A': "2 * length s < Suc n \<Longrightarrow> parse_members n [] cs \<noteq> Inl OutOfFuel"
    proof -
      assume "2 * length s < Suc n"
      then have "2 * length cs + 1 < n" using G by linarith
      then show ?thesis using m by (simp add: fuel_members_def)
    qed
    have B: "\<And>v r. parse_elements n [] cs = Inr (v, r) \<Longrightarrow> length r < length cs"
      using e by (simp add: fuel_elements_def)
    have B': "2 * length s < Suc n \<Longrightarrow> parse_elements n [] cs \<noteq> Inl OutOfFuel"
    proof -
      assume "2 * length s < Suc n"
      then have "2 * length cs + 1 < n" using G by linarith
      then show ?thesis using e by (simp add: fuel_elements_def)
    qed
    from Cons show ?thesis
    proof (cases rule: parse_value_Suc_cases[where n = n])
      case (obj_empty r)
      then show ?thesis using skip_ws_Cons_length[OF obj_empty(1)] G by simp
    next
      case obj
      then show ?thesis using A A' G by (auto dest!: A)
    next
      case (arr_empty r)
      then show ?thesis using skip_ws_Cons_length[OF arr_empty(1)] G by simp
    next
      case arr
      then show ?thesis using B B' G by (auto dest!: B)
    next
      case str
      then show ?thesis using parse_string_consumes[of cs] parse_string_fuel[of cs] G
        by (auto split: sum.splits)
    next
      case (lit w v0)
      then show ?thesis
        using parse_literal_consumes[of w v0 "c # cs"] parse_literal_fuel[of w v0 "c # cs"] G
        by auto
    next
      case num
      then show ?thesis
        using parse_number_consumes[of "c # cs"] parse_number_fuel[of "c # cs"] G
        by (auto split: sum.splits)
    next
      case err
      then show ?thesis by simp
    qed
  qed
qed

lemma fuel_elements_Suc:
  assumes v: "fuel_value n" and e: "fuel_elements n"
  shows "fuel_elements (Suc n)"
  unfolding fuel_elements_def
proof (intro allI)
  fix acc s
  show "(2 * length s + 1 < Suc n \<longrightarrow> parse_elements (Suc n) acc s \<noteq> Inl OutOfFuel)
        \<and> (\<forall>v r. parse_elements (Suc n) acc s = Inr (v, r) \<longrightarrow> length r < length s)"
  proof (cases "parse_value n s")
    case (Inl err)
    then have "2 * length s < n \<Longrightarrow> err \<noteq> OutOfFuel" using v by (auto simp: fuel_value_def)
    then show ?thesis using Inl by auto
  next
    case (Inr vr)
    obtain x r where vr: "vr = (x, r)" by (cases vr)
    have r: "length r < length s" using v Inr vr by (simp add: fuel_value_def)
    show ?thesis
    proof (cases "skip_ws r")
      case Nil
      then show ?thesis using Inr vr by simp
    next
      case (Cons d r')
      have r': "length r' < length r" by (rule skip_ws_Cons_length[OF Cons])
      have 1: "2 * length s + 1 < Suc n \<Longrightarrow> parse_elements n (x # acc) r' \<noteq> Inl OutOfFuel"
      proof -
        assume "2 * length s + 1 < Suc n"
        then have "2 * length r' + 1 < n" using r r' by linarith
        then show ?thesis using e by (simp add: fuel_elements_def)
      qed
      have 2: "\<And>y q. parse_elements n (x # acc) r' = Inr (y, q) \<Longrightarrow> length q < length s"
      proof -
        fix y q assume "parse_elements n (x # acc) r' = Inr (y, q)"
        then have "length q < length r'" using e by (simp add: fuel_elements_def)
        then show "length q < length s" using r r' by simp
      qed
      show ?thesis using Inr vr Cons 1 2 r r' by auto
    qed
  qed
qed

lemma fuel_members_Suc:
  assumes v: "fuel_value n" and m: "fuel_members n"
  shows "fuel_members (Suc n)"
  unfolding fuel_members_def
proof (intro allI)
  fix acc s
  show "(2 * length s + 1 < Suc n \<longrightarrow> parse_members (Suc n) acc s \<noteq> Inl OutOfFuel)
        \<and> (\<forall>v r. parse_members (Suc n) acc s = Inr (v, r) \<longrightarrow> length r < length s)"
  proof (cases "skip_ws s")
    case Nil
    then show ?thesis by simp
  next
    case s: (Cons q cs)
    have cs: "length cs < length s" by (rule skip_ws_Cons_length[OF s])
    show ?thesis
    proof (cases "q \<noteq> CHR 0x22")
      case True
      then show ?thesis using s by simp
    next
      case q: False
      show ?thesis
      proof (cases "parse_string cs")
        case (Inl err)
        then have "err \<noteq> OutOfFuel" using parse_string_fuel[of cs] by auto
        then show ?thesis using s q Inl by simp
      next
        case (Inr kr)
        obtain k r where kr: "kr = (k, r)" by (cases kr)
        have r: "length r < length cs" using parse_string_consumes Inr kr by simp
        show ?thesis
        proof (cases "skip_ws r")
          case Nil
          then show ?thesis using s q Inr kr by simp
        next
          case r1: (Cons colon r1)
          have lr1: "length r1 < length r" by (rule skip_ws_Cons_length[OF r1])
          show ?thesis
          proof (cases "colon \<noteq> CHR '':''")
            case True
            then show ?thesis using s q Inr kr r1 by simp
          next
            case colon: False
            show ?thesis
            proof (cases "parse_value n r1")
              case (Inl err)
              have "2 * length s + 1 < Suc n \<Longrightarrow> err \<noteq> OutOfFuel"
              proof -
                assume "2 * length s + 1 < Suc n"
                then have "2 * length r1 < n" using cs r lr1 by linarith
                then show ?thesis using v Inl by (auto simp: fuel_value_def)
              qed
              then show ?thesis using s q Inr kr r1 colon Inl by auto
            next
              case pv: (Inr xr)
              obtain x r2 where xr: "xr = (x, r2)" by (cases xr)
              have r2: "length r2 < length r1" using v pv xr by (simp add: fuel_value_def)
              show ?thesis
              proof (cases "skip_ws r2")
                case Nil
                then show ?thesis using s q Inr kr r1 colon pv xr by simp
              next
                case r3: (Cons d r3)
                have lr3: "length r3 < length r2" by (rule skip_ws_Cons_length[OF r3])
                have 1: "2 * length s + 1 < Suc n \<Longrightarrow> parse_members n ((k, x) # acc) r3 \<noteq> Inl OutOfFuel"
                proof -
                  assume "2 * length s + 1 < Suc n"
                  then have "2 * length r3 + 1 < n" using cs r lr1 r2 lr3 by linarith
                  then show ?thesis using m by (simp add: fuel_members_def)
                qed
                have 2: "\<And>y z. parse_members n ((k, x) # acc) r3 = Inr (y, z) \<Longrightarrow> length z < length s"
                proof -
                  fix y z assume "parse_members n ((k, x) # acc) r3 = Inr (y, z)"
                  then have "length z < length r3" using m by (simp add: fuel_members_def)
                  then show "length z < length s" using cs r lr1 r2 lr3 by simp
                qed
                have 3: "length r3 < length s" using cs r lr1 r2 lr3 by simp
                show ?thesis using s q Inr kr r1 colon pv xr r3 1 2 3 by auto
              qed
            qed
          qed
        qed
      qed
    qed
  qed
qed

lemma fuel_all: "fuel_value n \<and> fuel_elements n \<and> fuel_members n"
proof (induction n)
  case 0
  show ?case by (simp add: fuel_value_def fuel_elements_def fuel_members_def)
next
  case (Suc n)
  then show ?case using fuel_value_Suc fuel_elements_Suc fuel_members_Suc by blast
qed

theorem JSON_parse_fuel: "JSON_parse s \<noteq> Inl OutOfFuel"
proof -
  have "parse_value (Suc (2 * length s)) s \<noteq> Inl OutOfFuel"
    using fuel_all[of "Suc (2 * length s)"] unfolding fuel_value_def by (simp del: parse_value.simps)
  then show ?thesis
    by (auto simp: JSON_parse_def simp del: parse_value.simps split: sum.splits)
qed

subsection \<open>Reading winners back at their types\<close>

lemma json_Participant_json: "json_Participant (Participant_json p) = Some p"
  by (simp add: json_Participant_def Participant_json_def property_def)

lemma json_Prize_json: "json_Prize (Prize_json z) = Some z"
  by (simp add: json_Prize_def Prize_json_def property_def)

lemma json_Winner_json: "json_Winner (Winner_json w) = Some w"
  by (cases "congratsMessage w")
     (simp_all add: json_Winner_def Winner_json_def property_def json_Participant_json
        json_Prize_json json_congratsMessage_def)

lemma json_Winners_json: "json_Winners (map Winner_json ws) = Some ws"
  by (induction ws) (simp_all add: json_Winner_json)

subsection \<open>Splitting and joining\<close>

lemma split_on_no_sep: "x \<notin> set s \<Longrightarrow> split_on x xs acc s = [rev acc @ s]"
  by (induction s arbitrary: acc) auto

lemma split_on_sep:
  "x \<notin> set s \<Longrightarrow> split_on x xs acc (s @ x # xs @ t) = (rev acc @ s) # split_on x xs [] t"
  by (induction s arbitrary: acc) auto

lemma String_split_join:
  assumes "ps \<noteq> []" and "\<forall>p \<in> set ps. CHR '';'' \<notin> set p"
  shows "String_split ''; '' (join ''; '' ps) = ps"
  using assms
proof (induction ps)
  case Nil
  then show ?case by simp
next
  case (Cons p ps)
  show ?case
  proof (cases "ps = []")
    case True
    then show ?thesis using Cons.prems by (simp add: String_split_def split_on_no_sep)
  next
    case False
    then have j: "join ''; '' (p # ps) = p @ CHR '';'' # '' '' @ join ''; '' ps"
      by (simp add: join_Cons)
    have ih: "split_on (CHR '';'') '' '' [] (join ''; '' ps) = ps"
      using Cons False by (simp add: String_split_def)
    have "CHR '';'' \<notin> set p" using Cons.prems by simp
    then have "split_on (CHR '';'') '' '' [] (p @ CHR '';'' # '' '' @ join ''; '' ps)
                 = (rev [] @ p) # split_on (CHR '';'') '' '' [] (join ''; '' ps)"
      by (rule split_on_sep)
    then show ?thesis unfolding j by (simp add: String_split_def ih)
  qed
qed

lemma split_on_not_Nil: "split_on x xs acc s \<noteq> []"
  by (induction x xs acc s rule: split_on.induct) auto


subsection \<open>Cookies\<close>

lemma setCookie_expired: "n \<notin> fst ` set (setCookie n v (- 1) jar)"
  by (auto simp: setCookie_def document_cookie_assign_def)

lemma hex_upper_mem: "d < 16 \<Longrightarrow> hex_upper d \<in> set ''0123456789ABCDEF''"
  unfolding hex_upper_def by (rule nth_mem) simp

lemma percent_plain:
  assumes "b < 256" and "c \<in> set (percent b)"
  shows "c \<noteq> CHR '';'' \<and> c \<noteq> CHR ''=''"
proof -
  have 1: "b mod 16 < 16" by simp
  have 2: "b div 16 < 16" using assms(1) by linarith
  from assms(2) have "c = CHR ''%'' \<or> c = hex_upper (b div 16) \<or> c = hex_upper (b mod 16)"
    by (auto simp: percent_def)
  then have "c = CHR ''%'' \<or> c \<in> set ''0123456789ABCDEF''"
    using hex_upper_mem[OF 2] hex_upper_mem[OF 1] by auto
  then show ?thesis by auto
qed

lemma encodeURIComponent_char_plain:
  assumes "c \<in> set (encodeURIComponent_char x)"
  shows "c \<noteq> CHR '';'' \<and> c \<noteq> CHR ''=''"
proof (cases "uriUnreserved x")
  case True
  then show ?thesis using assms by (auto simp: encodeURIComponent_char_def uriUnreserved_def)
next
  case False
  have lt: "(of_char x :: nat) < 256" by (rule nat_of_char_less_256)
  have 1: "192 + (of_char x :: nat) div 64 < 256" using lt by linarith
  have 2: "128 + (of_char x :: nat) mod 64 < 256"
  proof -
    have "(of_char x :: nat) mod 64 < 64" by simp
    then show ?thesis by linarith
  qed
  from False assms have "c \<in> set (percent (of_char x)) \<or> c \<in> set (percent (192 + (of_char x :: nat) div 64))
      \<or> c \<in> set (percent (128 + (of_char x :: nat) mod 64))"
    by (auto simp: encodeURIComponent_char_def split: if_splits)
  then show ?thesis using percent_plain[OF lt] percent_plain[OF 1] percent_plain[OF 2] by blast
qed

lemma encodeURIComponent_plain:
  "CHR '';'' \<notin> set (encodeURIComponent s)" "CHR ''='' \<notin> set (encodeURIComponent s)"
  using encodeURIComponent_char_plain by (auto simp: encodeURIComponent_def)

lemma String_split_eq_name:
  assumes "CHR ''='' \<notin> set n"
  shows "String_split ''='' (n @ ''='' @ v) = n # String_split ''='' v"
  using split_on_sep[OF assms, of "[]" "[]" v] by (simp add: String_split_def)

lemma String_split_eq_plain: "CHR ''='' \<notin> set v \<Longrightarrow> String_split ''='' v = [v]"
  by (simp add: String_split_def split_on_no_sep)

lemma String_split_not_Nil: "String_split ''='' v \<noteq> []"
  by (simp add: String_split_def split_on_not_Nil)

lemma getCookie_step_piece:
  assumes "CHR ''='' \<notin> set (fst nv)"
  shows "getCookie_step k r (cookie_piece nv) =
     (case r of Inl e \<Rightarrow> Inl e
      | Inr r' \<Rightarrow> if fst nv = k then decodeURIComponent (hd (String_split ''='' (snd nv))) else Inr r')"
proof -
  obtain p ps where "String_split ''='' (snd nv) = p # ps"
    using String_split_not_Nil[of "snd nv"] by (cases "String_split ''='' (snd nv)") auto
  then show ?thesis
    using String_split_eq_name[OF assms, of "snd nv"]
    by (simp add: getCookie_step_def cookie_piece_def Let_def split: sum.splits)
qed

lemma foldl_getCookie_step_other:
  assumes "\<forall>nv \<in> set jar. CHR ''='' \<notin> set (fst nv)" and "k \<notin> fst ` set jar"
  shows "foldl (getCookie_step k) r (map cookie_piece jar) = r"
  using assms
proof (induction jar arbitrary: r)
  case Nil
  then show ?case by simp
next
  case (Cons nv jar)
  have "fst nv \<noteq> k" "CHR ''='' \<notin> set (fst nv)" using Cons.prems by auto
  then have "getCookie_step k r (cookie_piece nv) = r"
    by (simp add: getCookie_step_piece split: sum.splits)
  then show ?case using Cons by simp
qed

lemma document_cookie_pieces:
  assumes "jar_ok jar" and "jar \<noteq> []"
  shows "String_split ''; '' (document_cookie jar) = map cookie_piece jar"
proof -
  have "\<forall>p \<in> set (map cookie_piece jar). CHR '';'' \<notin> set p"
    using assms(1) by (auto simp: jar_ok_def cookie_piece_def)
  moreover have "map cookie_piece jar \<noteq> []" using assms(2) by simp
  ultimately have "String_split ''; '' (join ''; '' (map cookie_piece jar)) = map cookie_piece jar"
    by (rule String_split_join[rotated])
  moreover have "document_cookie jar = join ''; '' (map cookie_piece jar)"
    by (simp add: document_cookie_def cookie_piece_def[abs_def])
  ultimately show ?thesis by simp
qed

lemma getCookie_missing:
  assumes "jar_ok jar" and "cookie_name_ok k" and "k \<notin> fst ` set jar"
  shows "getCookie k jar = Inr []"
proof (cases "jar = []")
  case True
  then show ?thesis using assms(2)
    by (auto simp: getCookie_def document_cookie_def String_split_def getCookie_step_def
          cookie_name_ok_def)
next
  case False
  have "\<forall>nv \<in> set jar. CHR ''='' \<notin> set (fst nv)" using assms(1) by (simp add: jar_ok_def)
  then show ?thesis using assms(3)
    by (simp add: getCookie_def document_cookie_pieces[OF assms(1) False] foldl_getCookie_step_other)
qed

lemma getCookie_present:
  assumes "jar_ok jar" and "(k, v) \<in> set jar"
  shows "getCookie k jar = decodeURIComponent (hd (String_split ''='' v))"
proof -
  from assms(2) obtain pre post where jar: "jar = pre @ (k, v) # post"
    by (auto simp: in_set_conv_decomp)
  have ne: "jar \<noteq> []" using jar by simp
  have eqs: "\<forall>nv \<in> set jar. CHR ''='' \<notin> set (fst nv)" using assms(1) by (simp add: jar_ok_def)
  have d: "k \<notin> fst ` set pre" "k \<notin> fst ` set post"
    using assms(1) unfolding jar jar_ok_def by auto
  have 1: "foldl (getCookie_step k) (Inr []) (map cookie_piece pre) = Inr []"
    using eqs d(1) unfolding jar by (intro foldl_getCookie_step_other) auto
  have 2: "getCookie_step k (Inr []) (cookie_piece (k, v)) = decodeURIComponent (hd (String_split ''='' v))"
    using eqs unfolding jar by (simp add: getCookie_step_piece)
  have 3: "foldl (getCookie_step k) r (map cookie_piece post) = r" for r
    using eqs d(2) unfolding jar by (intro foldl_getCookie_step_other) auto
  have "getCookie k jar = foldl (getCookie_step k) (Inr []) (map cookie_piece jar)"
    by (simp add: getCookie_def document_cookie_pieces[OF assms(1) ne])
  also have "\<dots> = decodeURIComponent (hd (String_split ''='' v))"
    unfolding jar by (simp add: 1 2 3)
  finally show ?thesis .
qed

lemma jar_ok_setCookie:
  assumes "jar_ok jar" and "cookie_name_ok k"
  shows "jar_ok (setCookie k v days jar)"
proof -
  have d: "distinct (map fst (map (\<lambda>nv. if fst nv = k then (k, w) else nv) jar))" for w
  proof -
    have "map fst (map (\<lambda>nv. if fst nv = k then (k, w) else nv) jar) = map fst jar"
      by (induction jar) auto
    moreover have "distinct (map fst jar)" using assms(1) by (simp add: jar_ok_def)
    ultimately show ?thesis by (simp only:)
  qed
  show ?thesis
    using assms d encodeURIComponent_plain[of v]
    unfolding setCookie_def document_cookie_assign_def jar_ok_def cookie_name_ok_def
    by (auto simp: distinct_map_filter image_iff)
qed

lemma setCookie_stored:
  assumes "0 < days" and "utf8_length k + utf8_length (encodeURIComponent v) \<le> 4096"
  shows "(k, encodeURIComponent v) \<in> set (setCookie k v days jar)"
  using assms by (auto simp: setCookie_def document_cookie_assign_def image_iff)

lemma setCookie_ignored:
  assumes "0 < days" and "4096 < utf8_length k + utf8_length (encodeURIComponent v)"
  shows "setCookie k v days jar = jar"
  using assms by (simp add: setCookie_def document_cookie_assign_def)

lemma setCookie_same:
  assumes "distinct (map fst jar)" and "(k, encodeURIComponent v) \<in> set jar" and "0 < days"
  shows "setCookie k v days jar = jar"
proof -
  have "map (\<lambda>nv. if fst nv = k then (k, encodeURIComponent v) else nv) jar = jar"
  proof (rule map_idI)
    fix nv assume m: "nv \<in> set jar"
    show "(if fst nv = k then (k, encodeURIComponent v) else nv) = nv"
    proof (cases "fst nv = k")
      case True
      then have "(k, snd nv) \<in> set jar" using m by (cases nv) auto
      then have "snd nv = encodeURIComponent v"
        using assms(1,2) eq_key_imp_eq_value by fastforce
      then show ?thesis using True by (cases nv) auto
    next
      case False
      then show ?thesis by simp
    qed
  qed
  moreover have "k \<in> fst ` set jar" using assms(2) by force
  ultimately show ?thesis using assms(3) by (simp add: setCookie_def document_cookie_assign_def)
qed

lemma getCookie_stored:
  assumes "jar_ok jar" and "(k, encodeURIComponent v) \<in> set jar"
  shows "getCookie k jar = Inr v"
  using getCookie_present[OF assms]
  by (simp add: String_split_eq_plain encodeURIComponent_plain decodeURIComponent_encodeURIComponent)

lemma getCookie_setCookie:
  assumes "jar_ok jar" and "cookie_name_ok k" and "0 < days"
    and "utf8_length k + utf8_length (encodeURIComponent v) \<le> 4096"
  shows "getCookie k (setCookie k v days jar) = Inr v"
  by (rule getCookie_stored[OF jar_ok_setCookie[OF assms(1,2)] setCookie_stored[OF assms(3,4)]])

lemma getCookie_expired:
  assumes "jar_ok jar" and "cookie_name_ok k"
  shows "getCookie k (setCookie k v (- 1) jar) = Inr []"
  by (rule getCookie_missing[OF jar_ok_setCookie[OF assms] assms(2) setCookie_expired])


subsection \<open>Saving and loading\<close>

lemma winners_text_not_Nil: "JSON_stringify (winners_json ws) \<noteq> []"
  by (simp add: winners_json_def)

lemma load_parsed_winners_json:
  "load_parsed cfg (winners_json ws) b =
     Inr (b\<lparr>ui := (ui b)\<lparr>winners := ws,
              appState := (if length (PRIZES cfg) \<le> length ws then FINISHED else appState (ui b))\<rparr>\<rparr>)"
  by (simp add: load_parsed_def winners_json_def property_def falsy_def json_Winners_json)

lemma load_effect_stored:
  assumes "getCookie (APP_STORAGE_KEY cfg) (cookies b) = Inr (JSON_stringify (winners_json ws))"
  shows "load_effect cfg b =
     Inr (b\<lparr>ui := (ui b)\<lparr>winners := ws,
              appState := (if length (PRIZES cfg) \<le> length ws then FINISHED else appState (ui b))\<rparr>\<rparr>)"
  using assms
  by (simp add: load_effect_def winners_text_not_Nil JSON_parse_stringify load_parsed_winners_json)

lemma load_effect_empty:
  assumes "getCookie (APP_STORAGE_KEY cfg) (cookies b) = Inr []"
  shows "load_effect cfg b = Inr b"
  using assms by (simp add: load_effect_def)

lemma cookies_save_effect: "cookies (save_effect cfg b) = saved_jar cfg (winners (ui b)) (cookies b)"
  by (simp add: save_effect_def saved_jar_def)

lemma jar_ok_saved_jar:
  assumes "jar_ok jar" and "cookie_name_ok (APP_STORAGE_KEY cfg)"
  shows "jar_ok (saved_jar cfg ws jar)"
  using assms jar_ok_setCookie[OF assms] by (simp add: saved_jar_def)

lemma saved_jar_fits:
  assumes "ws \<noteq> []" and "record_fits cfg ws"
  shows "winners_cookie cfg ws \<in> set (saved_jar cfg ws jar)"
  using assms setCookie_stored[of 7 "APP_STORAGE_KEY cfg" "JSON_stringify (winners_json ws)" jar]
  by (simp add: saved_jar_def record_fits_def winners_cookie_def)

lemma saved_jar_ignored:
  assumes "\<not> record_fits cfg ws"
  shows "saved_jar cfg ws jar = jar"
  using assms setCookie_ignored[of 7 "APP_STORAGE_KEY cfg" "JSON_stringify (winners_json ws)" jar]
  by (simp add: saved_jar_def record_fits_def winners_cookie_def)

lemma mount_stored:
  assumes "jar_ok jar" and "winners_cookie cfg ws \<in> set jar" and "ws \<noteq> []"
  shows "mount cfg jar =
     Inr \<lparr>ui = (initialState cfg)\<lparr>winners := ws,
              appState := (if length (PRIZES cfg) \<le> length ws then FINISHED else READY)\<rparr>,
          cookies = jar, timeouts = [], confetti = [], console = []\<rparr>"
proof -
  have m: "(APP_STORAGE_KEY cfg, encodeURIComponent (JSON_stringify (winners_json ws))) \<in> set jar"
    using assms(2) by (simp add: winners_cookie_def)
  have g: "getCookie (APP_STORAGE_KEY cfg) (cookies (initialBrowser cfg jar))
             = Inr (JSON_stringify (winners_json ws))"
    using getCookie_stored[OF assms(1) m] by (simp add: initialBrowser_def)
  have d: "distinct (map fst jar)" using assms(1) by (simp add: jar_ok_def)
  have s: "setCookie (APP_STORAGE_KEY cfg) (JSON_stringify (winners_json ws)) 7 jar = jar"
    by (rule setCookie_same[OF d m]) simp
  show ?thesis
    using assms(3) s
    by (simp add: mount_def load_effect_stored[OF g] save_effect_def)
       (simp add: initialBrowser_def initialState_def)
qed

lemma mount_missing:
  assumes "jar_ok jar" and "cookie_name_ok (APP_STORAGE_KEY cfg)"
    and "APP_STORAGE_KEY cfg \<notin> fst ` set jar"
  shows "mount cfg jar = Inr (initialBrowser cfg jar)"
proof -
  have g: "getCookie (APP_STORAGE_KEY cfg) (cookies (initialBrowser cfg jar)) = Inr []"
    using assms by (simp add: initialBrowser_def getCookie_missing)
  show ?thesis
    by (simp add: mount_def load_effect_empty[OF g] save_effect_def)
       (simp add: initialBrowser_def initialState_def)
qed






subsection \<open>The size of the record\<close>

text \<open>
  The encoded record of a winner is at least 237 characters long (the names of its
  properties, with every quote, colon, comma and brace as three characters), so
  the record of eighteen winners or more does not fit in a cookie.
\<close>

lemma encodeURIComponent_Nil: "encodeURIComponent [] = []"
  by (simp add: encodeURIComponent_def)

lemma encodeURIComponent_Cons: "encodeURIComponent (c # s) = encodeURIComponent_char c @ encodeURIComponent s"
  by (simp add: encodeURIComponent_def)

lemma encodeURIComponent_append:
  "encodeURIComponent (a @ b) = encodeURIComponent a @ encodeURIComponent b"
  by (simp add: encodeURIComponent_def)

lemma length_encodeURIComponent_char:
  "length (encodeURIComponent_char c) =
     (if uriUnreserved c then 1 else if (of_char c :: nat) < 128 then 3 else 6)"
  by (simp add: encodeURIComponent_char_def percent_def)






lemma length_encode_quote: "6 \<le> length (encodeURIComponent (quote s))"
  by (simp add: quote_def encodeURIComponent_Cons encodeURIComponent_append encodeURIComponent_Nil
        length_encodeURIComponent_char uriUnreserved_def)










section \<open>Basic facts\<close>

subsection \<open>The random choice, the remaining prizes, the eligible participants\<close>

lemma random_element_Some:
  assumes "0 \<le> random" "random < 1" "xs \<noteq> []"
  shows "\<exists>x. random_element random xs = Some x \<and> x \<in> set xs"
proof -
  let ?n = "real (length xs)"
  have n: "0 < ?n" using assms(3) by simp
  have lo: "0 \<le> random * ?n" using assms(1) by simp
  have hi: "random * ?n < ?n" using assms(2) n by simp
  have i0: "0 \<le> \<lfloor>random * ?n\<rfloor>" using lo by simp
  have "\<lfloor>random * ?n\<rfloor> < int (length xs)" using hi by (simp add: floor_less_iff)
  then have i1: "nat \<lfloor>random * ?n\<rfloor> < length xs" using i0 by linarith
  show ?thesis using i0 i1 by (simp add: random_element_def Let_def)
qed

lemma set_remainingPrizes:
  "set (remainingPrizes cfg ws) =
     {p \<in> set (PRIZES cfg). prize_id p \<notin> (\<lambda>w. prize_id (prize w)) ` set ws}"
  by (auto simp: remainingPrizes_def Let_def)

lemma sorted_remainingPrizes:
  "sorted (map (\<lambda>p. - prize_id p) (remainingPrizes cfg ws))"
  by (simp add: remainingPrizes_def Let_def)

lemma nextPrize_Some:
  assumes "nextPrize cfg ws = Some z"
  shows "z \<in> set (PRIZES cfg)"
    and "prize_id z \<notin> (\<lambda>w. prize_id (prize w)) ` set ws"
    and "q \<in> set (PRIZES cfg) \<Longrightarrow> prize_id q \<notin> (\<lambda>w. prize_id (prize w)) ` set ws \<Longrightarrow> prize_id q \<le> prize_id z"
proof -
  from assms obtain rest where r: "remainingPrizes cfg ws = z # rest"
    by (auto simp: nextPrize_def split: list.splits)
  then have "z \<in> set (remainingPrizes cfg ws)" by simp
  then show "z \<in> set (PRIZES cfg)" "prize_id z \<notin> (\<lambda>w. prize_id (prize w)) ` set ws"
    by (auto simp: set_remainingPrizes)
  assume "q \<in> set (PRIZES cfg)" "prize_id q \<notin> (\<lambda>w. prize_id (prize w)) ` set ws"
  then have "q \<in> set (z # rest)" using r set_remainingPrizes[of cfg ws] by auto
  moreover have "sorted (map (\<lambda>p. - prize_id p) (z # rest))"
    using sorted_remainingPrizes[of cfg ws] r by simp
  ultimately show "prize_id q \<le> prize_id z" by auto
qed


lemma set_eligible:
  "set (eligible ps ws) =
     {p \<in> set ps. participant_id p \<notin> (\<lambda>w. participant_id (participant w)) ` set ws}"
  by (auto simp: eligible_def find_None_iff image_iff)

lemma eligible_Nil [simp]: "eligible [] ws = []"
  by (simp add: eligible_def)

lemma ui_save_effect: "ui (save_effect cfg b) = ui b"
  by (simp add: save_effect_def)

lemma ui_initialBrowser: "ui (initialBrowser cfg jar) = initialState cfg"
  by (simp add: initialBrowser_def)

lemma timeouts_initialBrowser: "timeouts (initialBrowser cfg jar) = []"
  by (simp add: initialBrowser_def)

subsection \<open>The first copy: \<^verbatim>\<open>drawWinner\<close> returns early, and never reads \<^verbatim>\<open>undefined\<close>\<close>

lemma drawWinner_noop:
  assumes "nextPrize cfg (winners (ui b)) = None
           \<or> eligible (participants (ui b)) (winners (ui b)) = []
           \<or> appState (ui b) = DRAWING"
  shows "drawWinner cfg random b = Inr b"
  using assms by (auto simp: drawWinner_def split: option.splits)

lemma drawWinner_selection_defined:
  assumes "0 \<le> random" "random < 1"
  shows "\<exists>b'. drawWinner cfg random b = Inr b'"
proof (cases "nextPrize cfg (winners (ui b)) = None
           \<or> eligible (participants (ui b)) (winners (ui b)) = []
           \<or> appState (ui b) = DRAWING")
  case True
  then show ?thesis using drawWinner_noop by blast
next
  case False
  then have e: "eligible (participants (ui b)) (winners (ui b)) \<noteq> []" by simp
  from random_element_Some[OF assms e] obtain p where
    "random_element random (eligible (participants (ui b)) (winners (ui b))) = Some p" by auto
  then show ?thesis using False by (auto simp: drawWinner_def split: option.splits)
qed

lemma drawWinner_no_participants:
  "participants (ui b) = [] \<Longrightarrow> drawWinner cfg random b = Inr b"
  by (rule drawWinner_noop) simp

lemma drawWinner_calls_no_participants:
  "participants (ui b) = [] \<Longrightarrow> drawWinner_calls cfg randoms b = Inr b"
  by (induction randoms) (simp_all add: drawWinner_no_participants)

lemma drawWinner2_no_participants:
  "participants (ui b) = [] \<Longrightarrow> drawWinner2 cfg b = b"
  by (simp add: drawWinner2_def split: option.splits)

lemma drawWinner2_funpow_no_participants:
  "participants (ui b) = [] \<Longrightarrow> (drawWinner2 cfg ^^ n) b = b"
  by (induction n) (simp_all add: drawWinner2_no_participants)


subsection \<open>The example configurations\<close>

lemma initialParticipants_config1: "initialParticipants config1 = [ann]"
  by (simp add: initialParticipants_def config1_def ann_def digits_zero)

lemma remainingPrizes_config1_Nil: "remainingPrizes config1 [] = [prizeA]"
  by (simp add: remainingPrizes_def config1_def)

lemma initialState_config1:
  "initialState config1 = \<lparr>participants = [ann], winners = [], appState = READY,
      showWinnerModal = False, lastWinner = None, currentDrawnName = None\<rparr>"
  by (simp add: initialState_def initialParticipants_config1)

lemma drawWinner_config1:
  "drawWinner config1 0 (initialBrowser config1 []) = Inr drawing1"
  by (simp add: drawWinner_def ui_initialBrowser initialState_config1 nextPrize_def
        remainingPrizes_config1_Nil eligible_def random_element_def drawing1_def
        timeouts_initialBrowser)
     (simp add: ann_def)

lemma step_drawing1: "step config1 (TimeoutFires 5) drawing1 = Inr committed1"
  by (simp add: drawing1_def committed1_def)

lemma winners_committed1: "winners (ui committed1) = [newWinner config1 5 ann prizeA]"
  by (simp add: committed1_def ui_save_effect timeout_callback_def drawing1_def ui_initialBrowser
      initialState_config1)

lemma remaining_committed1: "remainingPrizes config1 (winners (ui committed1)) = []"
  by (simp add: winners_committed1 remainingPrizes_def newWinner_def config1_def)

lemma appState_committed1: "appState (ui committed1) = READY"
  by (simp add: committed1_def ui_save_effect timeout_callback_def)

lemma initialParticipants_config2: "initialParticipants config2 = [ann]"
  by (simp add: initialParticipants_def config2_def ann_def digits_zero)

lemma remainingPrizes_config2_Nil: "remainingPrizes config2 [] = [prizeB, prizeA]"
  by (simp add: remainingPrizes_def config2_def prizeA_def prizeB_def)

lemma after_first_draw2_eq:
  "after_first_draw2 =
     save_effect config2
       \<lparr>ui = \<lparr>participants = [ann],
               winners = [newWinner config2 5 ann prizeB],
               appState = READY, showWinnerModal = True,
               lastWinner = Some (newWinner config2 5 ann prizeB),
               currentDrawnName = None\<rparr>,
        cookies = [], timeouts = [], confetti = [False], console = []\<rparr>"
  by (simp add: after_first_draw2_def drawWinner2_def nextPrize_def remainingPrizes_config2_Nil
        initialBrowser_def initialState_def initialParticipants_config2 timeout_fires2_def
        timeout_callback2_def random_element_def eligible_def)
     (simp add: prizeB_def)

lemma ui_after_first_draw2:
  "ui after_first_draw2 =
     \<lparr>participants = [ann],
      winners = [newWinner config2 5 ann prizeB],
      appState = READY, showWinnerModal = True,
      lastWinner = Some (newWinner config2 5 ann prizeB),
      currentDrawnName = None\<rparr>"
  by (simp add: after_first_draw2_eq ui_save_effect)

lemma timeouts_after_first_draw2: "timeouts after_first_draw2 = []"
  by (simp add: after_first_draw2_eq save_effect_def)

lemma remaining_after_first_draw2:
  "remainingPrizes config2 (winners (ui after_first_draw2)) = [prizeA]"
  by (simp add: ui_after_first_draw2 remainingPrizes_def newWinner_def config2_def prizeA_def prizeB_def)

lemma eligible_after_first_draw2:
  "eligible (participants (ui after_first_draw2)) (winners (ui after_first_draw2)) = []"
  by (simp add: eligible_def ui_after_first_draw2 newWinner_def)

lemma jar_ok_Nil: "jar_ok []"
  by (simp add: jar_ok_def)





lemma getCookie_unparsable: "getCookie ''zuv'' [(''zuv'', ''%7Bx'')] = Inr ''{x''"
  by code_simp

lemma JSON_parse_unparsable: "JSON_parse ''{x'' = Inl SyntaxError"
  by code_simp

lemma getCookie_malformed_escape: "getCookie ''zuv'' [(''zuv'', ''%'')] = Inl URIError"
  by code_simp

lemma getCookie_not_utf8: "getCookie ''zuv'' [(''zuv'', ''%FF'')] = Inl URIError"
  by code_simp

lemma load_effect_missing_or_unparsable:
  assumes "getCookie (APP_STORAGE_KEY cfg) (cookies b) = Inr saved"
    and "saved = [] \<or> JSON_parse saved = Inl SyntaxError"
  shows "load_effect cfg b = Inr (b\<lparr>console := console b @ (if saved = [] then [] else [SyntaxError])\<rparr>)"
  using assms by (auto simp: load_effect_def catch_log_def)

lemma load_effect_unparsable_config1:
  "load_effect config1 (initialBrowser config1 [(''zuv'', ''%7Bx'')])
       = Inr ((initialBrowser config1 [(''zuv'', ''%7Bx'')])\<lparr>console := [SyntaxError]\<rparr>)"
proof -
  have k: "APP_STORAGE_KEY config1 = ''zuv''" by (simp add: config1_def)
  have 2: "getCookie (APP_STORAGE_KEY config1) (cookies (initialBrowser config1 [(''zuv'', ''%7Bx'')])) = Inr ''{x''"
    by (simp add: initialBrowser_def k getCookie_unparsable)
  show ?thesis
    using load_effect_missing_or_unparsable[OF 2] JSON_parse_unparsable by (simp add: initialBrowser_def)
qed





lemma cookie_name_ok_config2: "cookie_name_ok (APP_STORAGE_KEY config2)"
  by (simp add: cookie_name_ok_def config2_def)

subsection \<open>The invariant of the reachable states\<close>

lemma winners_ok_length:
  assumes "winners_ok cfg ws"
  shows "length ws \<le> length (PRIZES cfg)"
proof -
  let ?f = "\<lambda>w. prize_id (prize w)"
  have "length ws = card (?f ` set ws)"
    using assms distinct_card[of "map ?f ws"] by (simp add: winners_ok_def)
  also have "?f ` set ws \<subseteq> prize_id ` set (PRIZES cfg)"
    using assms by (auto simp: winners_ok_def)
  then have "card (?f ` set ws) \<le> card (prize_id ` set (PRIZES cfg))"
    by (intro card_mono) simp_all
  also have "\<dots> \<le> card (set (PRIZES cfg))" by (intro card_image_le) simp
  also have "\<dots> \<le> length (PRIZES cfg)" by (rule card_length)
  finally show ?thesis .
qed

lemma winners_ok_data_invariant: "winners_ok cfg ws \<Longrightarrow> data_invariant cfg ws"
  using winners_ok_length by (simp add: winners_ok_def data_invariant_def)

lemma winners_ok_snoc:
  assumes "winners_ok cfg ws"
    and "participant_id p \<notin> (\<lambda>w. participant_id (participant w)) ` set ws"
    and "z \<in> set (PRIZES cfg)"
    and "prize_id z \<notin> (\<lambda>w. prize_id (prize w)) ` set ws"
  shows "winners_ok cfg (ws @ [newWinner cfg now p z])"
  using assms by (auto simp: winners_ok_def newWinner_def)

lemma pending_prize_remains:
  assumes "winners_ok cfg ws" and "z \<in> set (PRIZES cfg)"
    and "prize_id z \<notin> (\<lambda>w. prize_id (prize w)) ` set ws"
  shows "length ws < length (PRIZES cfg)"
proof -
  let ?w = "\<lparr>participant = undefined, prize = z, drawnAt = 0, congratsMessage = None\<rparr>"
  have "distinct (map (\<lambda>w. prize_id (prize w)) (ws @ [?w]))"
    using assms by (auto simp: winners_ok_def)
  moreover have "prize ` set (ws @ [?w]) \<subseteq> set (PRIZES cfg)"
    using assms by (auto simp: winners_ok_def)
  ultimately have "length (ws @ [?w]) = card ((\<lambda>w. prize_id (prize w)) ` set (ws @ [?w]))"
    and "(\<lambda>w. prize_id (prize w)) ` set (ws @ [?w]) \<subseteq> prize_id ` set (PRIZES cfg)"
    using distinct_card[of "map (\<lambda>w. prize_id (prize w)) (ws @ [?w])"] by auto
  then have "length (ws @ [?w]) \<le> card (prize_id ` set (PRIZES cfg))"
    by (metis List.finite_set card_mono finite_imageI)
  also have "\<dots> \<le> card (set (PRIZES cfg))" by (intro card_image_le) simp
  also have "\<dots> \<le> length (PRIZES cfg)" by (rule card_length)
  finally show ?thesis by simp
qed

lemma inv_initial:
  assumes "jar_ok jar" and "APP_STORAGE_KEY cfg \<notin> fst ` set jar"
  shows "inv cfg (initialBrowser cfg jar)"
  using assms
  by (simp add: inv_def winners_ok_def stored_def pending_ok_def initialBrowser_def initialState_def)

lemma inv_ClickDraw:
  assumes i: "inv cfg b" and r: "0 \<le> random" "random < 1"
  shows "\<exists>b'. step cfg (ClickDraw random) b = Inr b' \<and> inv cfg b'"
proof (cases "draw_button_rendered cfg (ui b)
              \<and> eligible (participants (ui b)) (winners (ui b)) \<noteq> []")
  case False
  then have "step cfg (ClickDraw random) b = Inr b"
    using drawWinner_noop[of cfg b random] by auto
  then show ?thesis using i by simp
next
  case True
  let ?ws = "winners (ui b)"
  from True have g: "appState (ui b) \<noteq> DRAWING" "nextPrize cfg ?ws \<noteq> None"
    and e: "eligible (participants (ui b)) ?ws \<noteq> []"
    by (simp_all add: draw_button_rendered_def)
  from g(2) obtain z where z: "nextPrize cfg ?ws = Some z" by auto
  from random_element_Some[OF r e] obtain p where
    p: "random_element random (eligible (participants (ui b)) ?ws) = Some p"
       "p \<in> set (eligible (participants (ui b)) ?ws)" by auto
  from e have ps: "participants (ui b) \<noteq> []" by auto
  have t: "timeouts b = []" using i g(1) by (auto simp: inv_def pending_ok_def)
  define b1 where "b1 = b\<lparr>ui := (ui b)\<lparr>appState := DRAWING,
                                        currentDrawnName := Some (participant_name p)\<rparr>,
                           timeouts := timeouts b @ [Timeout p z]\<rparr>"
  have d: "step cfg (ClickDraw random) b = Inr b1"
    using True z p(1) ps g(1) e by (simp add: drawWinner_def b1_def)
  have pid: "participant_id p \<notin> (\<lambda>w. participant_id (participant w)) ` set ?ws"
    using p(2) by (simp add: set_eligible)
  note nz = nextPrize_Some(1,2)[OF z]
  have "pending_ok cfg b1"
    using t pid nz by (simp add: pending_ok_def b1_def)
  moreover have "winners_ok cfg (winners (ui b1))" using i by (simp add: inv_def b1_def)
  moreover have "stored cfg b1" using i by (simp add: inv_def stored_def b1_def)
  ultimately show ?thesis using d by (simp add: inv_def)
qed

lemma inv_TimeoutFires:
  assumes k: "cookie_name_ok (APP_STORAGE_KEY cfg)" and i: "inv cfg b"
  shows "\<exists>b'. step cfg (TimeoutFires now) b = Inr b' \<and> inv cfg b'"
proof (cases "timeouts b = []")
  case True
  then show ?thesis using i by simp
next
  case False
  let ?ws = "winners (ui b)"
  from False i obtain p z where pz: "timeouts b = [Timeout p z]"
      "participant_id p \<notin> (\<lambda>w. participant_id (participant w)) ` set ?ws"
      "z \<in> set (PRIZES cfg)" "prize_id z \<notin> (\<lambda>w. prize_id (prize w)) ` set ?ws"
    by (auto simp: inv_def pending_ok_def)
  define b' where "b' = save_effect cfg (timeout_callback cfg now p z (b\<lparr>timeouts := []\<rparr>))"
  have s: "step cfg (TimeoutFires now) b = Inr b'" using pz(1) by (simp add: b'_def)
  have w: "winners (ui b') = ?ws @ [newWinner cfg now p z]"
    by (simp add: b'_def ui_save_effect timeout_callback_def)
  have c: "cookies b' = saved_jar cfg (?ws @ [newWinner cfg now p z]) (cookies b)"
    by (simp add: b'_def cookies_save_effect) (simp add: timeout_callback_def)
  have t: "timeouts b' = []" by (simp add: b'_def save_effect_def timeout_callback_def)
  have j: "jar_ok (cookies b)" using i by (simp add: inv_def stored_def)
  have 1: "winners_ok cfg (winners (ui b'))"
    unfolding w using i pz by (intro winners_ok_snoc) (simp_all add: inv_def)
  have 2: "stored cfg b'"
  proof (cases "record_fits cfg (winners (ui b'))")
    case True
    have "winners_cookie cfg (winners (ui b')) \<in> set (cookies b')"
      unfolding c w using True by (intro saved_jar_fits) (simp_all add: w)
    moreover have "winners (ui b') \<noteq> []" by (simp add: w)
    moreover have "jar_ok (cookies b')" unfolding c by (rule jar_ok_saved_jar[OF j k])
    ultimately show ?thesis using 1 True unfolding stored_def by blast
  next
    case False
    then have "cookies b' = cookies b" unfolding c w by (rule saved_jar_ignored)
    then show ?thesis using i by (simp add: inv_def stored_def)
  qed
  have 3: "pending_ok cfg b'" using t by (simp add: pending_ok_def)
  show ?thesis using s 1 2 3 by (simp add: inv_def)
qed

lemma inv_CloseModal:
  assumes i: "inv cfg b"
  shows "\<exists>b'. step cfg CloseModal b = Inr b' \<and> inv cfg b'"
proof (cases "modal_rendered (ui b)")
  case False
  then show ?thesis using i by simp
next
  case True
  have a: "timeouts b \<noteq> [] \<Longrightarrow> appState (ui (onClose cfg b)) = appState (ui b)"
  proof -
    assume "timeouts b \<noteq> []"
    with i obtain p z where "z \<in> set (PRIZES cfg)"
        "prize_id z \<notin> (\<lambda>w. prize_id (prize w)) ` set (winners (ui b))"
      by (auto simp: inv_def pending_ok_def)
    with i have "length (winners (ui b)) < length (PRIZES cfg)"
      by (intro pending_prize_remains) (simp_all add: inv_def)
    then show ?thesis by (simp add: onClose_def)
  qed
  have 1: "winners_ok cfg (winners (ui (onClose cfg b)))" using i by (simp add: inv_def onClose_def)
  have 2: "stored cfg (onClose cfg b)" using i by (simp add: inv_def stored_def onClose_def)
  have 3: "pending_ok cfg (onClose cfg b)"
  proof (cases "timeouts b = []")
    case True
    then show ?thesis by (simp add: pending_ok_def onClose_def)
  next
    case False
    from a[OF False] i False show ?thesis
      by (auto simp: inv_def pending_ok_def) (auto simp: onClose_def)
  qed
  show ?thesis using True 1 2 3 by (simp add: inv_def)
qed

lemma inv_ClickReset:
  assumes k: "cookie_name_ok (APP_STORAGE_KEY cfg)" and i: "inv cfg b"
  shows "\<exists>b'. step cfg (ClickReset confirmed) b = Inr b' \<and> inv cfg b'"
proof (cases "isAllFinished cfg (ui b) \<and> confirmed")
  case False
  then have "step cfg (ClickReset confirmed) b = Inr b"
    by (auto simp: handleReset_def)
  then show ?thesis using i by simp
next
  case True
  then have f: "length (PRIZES cfg) \<le> length (winners (ui b))" by (simp add: isAllFinished_def)
  have t: "timeouts b = []"
  proof (rule ccontr)
    assume "timeouts b \<noteq> []"
    with i obtain p z where "z \<in> set (PRIZES cfg)"
        "prize_id z \<notin> (\<lambda>w. prize_id (prize w)) ` set (winners (ui b))"
      by (auto simp: inv_def pending_ok_def)
    with i have "length (winners (ui b)) < length (PRIZES cfg)"
      by (intro pending_prize_remains) (simp_all add: inv_def)
    with f show False by simp
  qed
  define b' where "b' = save_effect cfg (handleReset cfg True b)"
  have s: "step cfg (ClickReset confirmed) b = Inr b'" using True by (simp add: b'_def)
  have w: "winners (ui b') = []" by (simp add: b'_def ui_save_effect handleReset_def)
  have c: "cookies b' = setCookie (APP_STORAGE_KEY cfg) [] (- 1) (cookies b)"
    by (simp add: b'_def cookies_save_effect saved_jar_def) (simp add: handleReset_def)
  have t': "timeouts b' = []" using t by (simp add: b'_def save_effect_def handleReset_def)
  have j: "jar_ok (cookies b)" using i by (simp add: inv_def stored_def)
  have 1: "winners_ok cfg (winners (ui b'))" unfolding w by (simp add: winners_ok_def)
  have 2: "stored cfg b'"
    unfolding stored_def w c using jar_ok_setCookie[OF j k] setCookie_expired by simp
  have 3: "pending_ok cfg b'" using t' by (simp add: pending_ok_def)
  show ?thesis using s 1 2 3 by (simp add: inv_def)
qed

lemma inv_Reload:
  assumes k: "cookie_name_ok (APP_STORAGE_KEY cfg)" and i: "inv cfg b"
  shows "\<exists>b'. step cfg Reload b = Inr b' \<and> inv cfg b'"
proof (cases "APP_STORAGE_KEY cfg \<in> fst ` set (cookies b)")
  case False
  from i have j: "jar_ok (cookies b)" by (simp add: inv_def stored_def)
  have "step cfg Reload b = Inr (initialBrowser cfg (cookies b))"
    by (simp add: mount_missing[OF j k False])
  then show ?thesis using inv_initial[OF j False] by simp
next
  case True
  from i have j: "jar_ok (cookies b)" by (simp add: inv_def stored_def)
  from i True obtain ws where ws: "ws \<noteq> []" "winners_ok cfg ws" "record_fits cfg ws"
      "winners_cookie cfg ws \<in> set (cookies b)"
    unfolding inv_def stored_def by blast
  define b' where "b' = \<lparr>ui = (initialState cfg)\<lparr>winners := ws,
              appState := (if length (PRIZES cfg) \<le> length ws then FINISHED else READY)\<rparr>,
          cookies = cookies b, timeouts = [], confetti = [], console = []\<rparr>"
  have s: "step cfg Reload b = Inr b'"
    by (simp add: mount_stored[OF j ws(4,1)] b'_def)
  have 1: "winners_ok cfg (winners (ui b'))" using ws(2) by (simp add: b'_def)
  have 2: "stored cfg b'"
    unfolding stored_def using j ws by (auto simp: b'_def)
  have 3: "pending_ok cfg b'" by (simp add: pending_ok_def b'_def)
  show ?thesis using s 1 2 3 by (simp add: inv_def)
qed

lemma inv_step:
  assumes "cookie_name_ok (APP_STORAGE_KEY cfg)" and "inv cfg b" and "valid_event e"
  shows "\<exists>b'. step cfg e b = Inr b' \<and> inv cfg b'"
proof (cases e)
  case (ClickDraw random)
  then show ?thesis using assms inv_ClickDraw[of cfg b random] by simp
next
  case (TimeoutFires now)
  then show ?thesis using assms inv_TimeoutFires by simp
next
  case CloseModal
  then show ?thesis using assms inv_CloseModal by simp
next
  case (ClickReset confirmed)
  then show ?thesis using assms inv_ClickReset by simp
next
  case Reload
  then show ?thesis using assms inv_Reload by simp
qed

lemma inv_run:
  assumes "cookie_name_ok (APP_STORAGE_KEY cfg)" and "inv cfg b" and "\<forall>e \<in> set es. valid_event e"
  shows "\<exists>b'. run cfg es b = Inr b' \<and> inv cfg b'"
  using assms(2,3)
proof (induction es arbitrary: b)
  case Nil
  then show ?case by simp
next
  case (Cons e es)
  from inv_step[OF assms(1) Cons.prems(1), of e] Cons.prems(2)
  obtain b1 where b1: "step cfg e b = Inr b1" "inv cfg b1" by auto
  from Cons.IH[OF b1(2)] Cons.prems(2) obtain b' where "run cfg es b1 = Inr b'" "inv cfg b'" by auto
  then show ?case using b1(1) by simp
qed


subsection \<open>Draws one after the other\<close>









section \<open>The claims\<close>

text \<open>
  Claim C1. For every completed draw of the first copy (\<^verbatim>\<open>drawWinner\<close> called where
  its guards pass, and then its timeout), the winner appended has a participant of the
  list that no winner at draw time references by id, and a prize of \<open>PRIZES\<close> that no
  winner at draw time references by id and whose id is the highest among such prizes.
  The component orders prizes by \<^verbatim>\<open>id\<close>; it never reads \<^verbatim>\<open>rank\<close>.
\<close>

theorem drawWinner_commit_eligible_top_prize:
  assumes r: "0 \<le> random" "random < 1"
    and t: "timeouts b = []"
    and g1: "nextPrize cfg (winners (ui b)) \<noteq> None"
    and g2: "appState (ui b) \<noteq> DRAWING"
    and g3: "eligible (participants (ui b)) (winners (ui b)) \<noteq> []"
  shows "\<exists>b1 b2 w.
           drawWinner cfg random b = Inr b1 \<and>
           step cfg (TimeoutFires now) b1 = Inr b2 \<and>
           winners (ui b2) = winners (ui b) @ [w] \<and>
           participant w \<in> set (participants (ui b)) \<and>
           participant_id (participant w) \<notin>
             (\<lambda>v. participant_id (participant v)) ` set (winners (ui b)) \<and>
           prize w \<in> set (PRIZES cfg) \<and>
           prize_id (prize w) \<notin> (\<lambda>v. prize_id (prize v)) ` set (winners (ui b)) \<and>
           (\<forall>q \<in> set (PRIZES cfg).
              prize_id q \<notin> (\<lambda>v. prize_id (prize v)) ` set (winners (ui b)) \<longrightarrow>
              prize_id q \<le> prize_id (prize w))"
proof -
  let ?ws = "winners (ui b)"
  let ?el = "eligible (participants (ui b)) ?ws"
  from g1 obtain z where z: "nextPrize cfg ?ws = Some z" by auto
  from random_element_Some[OF r g3] obtain p where
    p: "random_element random ?el = Some p" "p \<in> set ?el" by auto
  from g3 have ps: "participants (ui b) \<noteq> []" by auto
  let ?b1 = "b\<lparr>ui := (ui b)\<lparr>appState := DRAWING, currentDrawnName := Some (participant_name p)\<rparr>,
                timeouts := timeouts b @ [Timeout p z]\<rparr>"
  let ?w = "newWinner cfg now p z"
  let ?b2 = "save_effect cfg (timeout_callback cfg now p z (?b1\<lparr>timeouts := []\<rparr>))"
  have d: "drawWinner cfg random b = Inr ?b1"
    using z p(1) ps g2 g3 by (simp add: drawWinner_def)
  have s: "step cfg (TimeoutFires now) ?b1 = Inr ?b2"
    using t by simp
  have w: "winners (ui ?b2) = ?ws @ [?w]"
    by (simp add: ui_save_effect timeout_callback_def)
  have pw: "participant ?w = p" and zw: "prize ?w = z"
    by (simp_all add: newWinner_def)
  from p(2) have pe: "p \<in> set (participants (ui b))"
    "participant_id p \<notin> (\<lambda>v. participant_id (participant v)) ` set ?ws"
    by (simp_all add: set_eligible)
  note nz = nextPrize_Some[OF z]
  show ?thesis
    apply (rule exI[of _ ?b1], rule exI[of _ ?b2], rule exI[of _ ?w])
    using d s w pe nz unfolding pw zw by blast
qed

theorem drawWinner_commit_eligible_top_prize_witness:
  "\<exists>b1 b2 w.
     drawWinner config1 0 (initialBrowser config1 []) = Inr b1 \<and>
     step config1 (TimeoutFires 5) b1 = Inr b2 \<and>
     winners (ui b2) = winners (ui (initialBrowser config1 [])) @ [w] \<and>
     participant w \<in> set (participants (ui (initialBrowser config1 []))) \<and>
     participant_id (participant w) \<notin>
       (\<lambda>v. participant_id (participant v)) ` set (winners (ui (initialBrowser config1 []))) \<and>
     prize w \<in> set (PRIZES config1) \<and>
     prize_id (prize w) \<notin> (\<lambda>v. prize_id (prize v)) ` set (winners (ui (initialBrowser config1 []))) \<and>
     (\<forall>q \<in> set (PRIZES config1).
        prize_id q \<notin> (\<lambda>v. prize_id (prize v)) ` set (winners (ui (initialBrowser config1 []))) \<longrightarrow>
        prize_id q \<le> prize_id (prize w))"
proof -
  have 1: "(0::real) \<le> 0" "(0::real) < 1" by simp_all
  have 2: "timeouts (initialBrowser config1 []) = []" by (simp add: timeouts_initialBrowser)
  have 3: "nextPrize config1 (winners (ui (initialBrowser config1 []))) \<noteq> None"
    by (simp add: ui_initialBrowser initialState_config1 nextPrize_def remainingPrizes_config1_Nil)
  have 4: "appState (ui (initialBrowser config1 [])) \<noteq> DRAWING"
    by (simp add: ui_initialBrowser initialState_config1)
  have 5: "eligible (participants (ui (initialBrowser config1 []))) (winners (ui (initialBrowser config1 []))) \<noteq> []"
    by (simp add: ui_initialBrowser initialState_config1 eligible_def)
  show ?thesis by (rule drawWinner_commit_eligible_top_prize[OF 1 2 3 4 5])
qed

text \<open>
  Claim C2. In every state that the first copy of the component reaches, from its
  mount in a browser with no cookie under the storage key and through any sequence
  of events (clicks on the draw button, timeouts, closing the modal, resets, reloads
  of the page, which load what was saved), each participant id is in at most one
  winner, each prize id is in at most one winner, and the winners are not more than
  the prizes; and no event of such a sequence ends in an exception.
\<close>

theorem data_invariant_reachable:
  assumes "cookie_name_ok (APP_STORAGE_KEY cfg)" and "jar_ok jar"
    and "APP_STORAGE_KEY cfg \<notin> fst ` set jar" and "\<forall>e \<in> set es. valid_event e"
  shows "\<exists>b. session cfg jar es = Inr b \<and> data_invariant cfg (winners (ui b))"
proof -
  have m: "mount cfg jar = Inr (initialBrowser cfg jar)"
    by (rule mount_missing[OF assms(2,1,3)])
  from inv_run[OF assms(1) inv_initial[OF assms(2,3)] assms(4)]
  obtain b where "run cfg es (initialBrowser cfg jar) = Inr b" "inv cfg b" by auto
  then show ?thesis using m by (auto simp: session_def inv_def winners_ok_data_invariant)
qed

theorem data_invariant_reachable_witness:
  "\<exists>b. session config2 [] [ClickDraw 0, TimeoutFires 5, CloseModal, Reload, ClickDraw (1 / 2),
                            TimeoutFires 9, ClickReset True] = Inr b
       \<and> data_invariant config2 (winners (ui b))"
  by (rule data_invariant_reachable[OF cookie_name_ok_config2 jar_ok_Nil]) simp_all

text \<open>
  Claim C3, in the second copy of the component. The claim: \<^verbatim>\<open>drawWinner\<close> changes
  nothing when there is no unclaimed prize, or no eligible participant, or a draw is
  in progress. The first copy does so (\<open>drawWinner_noop\<close>). The second copy has no
  test of the eligible list: under \<open>config2\<close>, after the only participant has won,
  no participant is eligible, and \<^verbatim>\<open>drawWinner\<close> still moves from \<open>READY\<close> to
  \<open>DRAWING\<close> and sets a timeout.
\<close>

theorem drawWinner2_without_eligible_is_not_noop:
  "eligible (participants (ui after_first_draw2)) (winners (ui after_first_draw2)) = []
   \<and> appState (ui after_first_draw2) = READY
   \<and> timeouts after_first_draw2 = []
   \<and> appState (ui (drawWinner2 config2 after_first_draw2)) = DRAWING
   \<and> timeouts (drawWinner2 config2 after_first_draw2) = [Timeout2 [] prizeA 1]
   \<and> drawWinner2 config2 after_first_draw2 \<noteq> after_first_draw2"
proof -
  have d: "drawWinner2 config2 after_first_draw2 =
     after_first_draw2\<lparr>ui := (ui after_first_draw2)\<lparr>appState := DRAWING\<rparr>,
                        timeouts := [Timeout2 [] prizeA 1]\<rparr>"
    by (simp add: eligible_after_first_draw2 drawWinner2_def nextPrize_def
          remaining_after_first_draw2 timeouts_after_first_draw2)
       (simp add: ui_after_first_draw2)
  have a: "appState (ui after_first_draw2) = READY" by (simp add: ui_after_first_draw2)
  have n: "drawWinner2 config2 after_first_draw2 \<noteq> after_first_draw2"
  proof
    assume "drawWinner2 config2 after_first_draw2 = after_first_draw2"
    then have "appState (ui (drawWinner2 config2 after_first_draw2)) = READY" using a by simp
    then show False by (simp add: d)
  qed
  show ?thesis
    using eligible_after_first_draw2 a timeouts_after_first_draw2 n by (simp add: d)
qed

text \<open>
  Claim C4, as the first copy of the component has it. For every draw that passes
  its guards, when the timeout runs the new winner is appended, the celebration is
  signalled with the flag of the drawn prize, the state is \<open>READY\<close> in every case and
  the modal is shown; when the modal is then closed, the state is \<open>FINISHED\<close> if
  the winners are as many as the prizes, and \<open>READY\<close> otherwise. (For prizes of
  pairwise different ids and winners as the component appends them, the winners
  are as many as the prizes exactly when no prize remains:
  \<open>remaining_empty_iff_count\<close>.)
\<close>

theorem draw_commit_READY_then_close:
  assumes r: "0 \<le> random" "random < 1"
    and t: "timeouts b = []"
    and g1: "nextPrize cfg (winners (ui b)) = Some z"
    and g2: "appState (ui b) \<noteq> DRAWING"
    and g3: "eligible (participants (ui b)) (winners (ui b)) \<noteq> []"
  shows "\<exists>b1 b2 p.
           drawWinner cfg random b = Inr b1 \<and>
           step cfg (TimeoutFires now) b1 = Inr b2 \<and>
           winners (ui b2) = winners (ui b) @ [newWinner cfg now p z] \<and>
           confetti b2 = confetti b @ [isBigWinner z] \<and>
           appState (ui b2) = READY \<and>
           modal_rendered (ui b2) \<and>
           step cfg CloseModal b2 = Inr (onClose cfg b2) \<and>
           appState (ui (onClose cfg b2)) =
             (if length (PRIZES cfg) \<le> length (winners (ui b2)) then FINISHED else READY)"
proof -
  let ?ws = "winners (ui b)"
  let ?el = "eligible (participants (ui b)) ?ws"
  from random_element_Some[OF r g3] obtain p where
    p: "random_element random ?el = Some p" by auto
  from g3 have ps: "participants (ui b) \<noteq> []" by auto
  define b1 where "b1 = b\<lparr>ui := (ui b)\<lparr>appState := DRAWING, currentDrawnName := Some (participant_name p)\<rparr>,
                timeouts := timeouts b @ [Timeout p z]\<rparr>"
  define b2 where "b2 = save_effect cfg (timeout_callback cfg now p z (b1\<lparr>timeouts := []\<rparr>))"
  have d: "drawWinner cfg random b = Inr b1"
    using g1 p ps g2 g3 by (simp add: drawWinner_def b1_def)
  have s: "step cfg (TimeoutFires now) b1 = Inr b2"
    using t by (simp add: b1_def b2_def)
  have w: "winners (ui b2) = ?ws @ [newWinner cfg now p z]"
    by (simp add: b2_def b1_def ui_save_effect timeout_callback_def)
  have c: "confetti b2 = confetti b @ [isBigWinner z]"
    by (simp add: b2_def b1_def save_effect_def timeout_callback_def)
  have a: "appState (ui b2) = READY"
    by (simp add: b2_def b1_def ui_save_effect timeout_callback_def)
  have m: "modal_rendered (ui b2)"
    by (simp add: b2_def b1_def ui_save_effect timeout_callback_def modal_rendered_def)
  have cl: "step cfg CloseModal b2 = Inr (onClose cfg b2)" using m by simp
  have f: "appState (ui (onClose cfg b2)) =
             (if length (PRIZES cfg) \<le> length (winners (ui b2)) then FINISHED else READY)"
    using a by (simp add: onClose_def)
  from d s w c a m cl f show ?thesis by blast
qed

theorem draw_commit_READY_then_close_witness:
  "\<exists>b1 b2 p.
     drawWinner config1 0 (initialBrowser config1 []) = Inr b1 \<and>
     step config1 (TimeoutFires 5) b1 = Inr b2 \<and>
     winners (ui b2) = winners (ui (initialBrowser config1 [])) @ [newWinner config1 5 p prizeA] \<and>
     confetti b2 = confetti (initialBrowser config1 []) @ [isBigWinner prizeA] \<and>
     appState (ui b2) = READY \<and>
     modal_rendered (ui b2) \<and>
     step config1 CloseModal b2 = Inr (onClose config1 b2) \<and>
     appState (ui (onClose config1 b2)) =
       (if length (PRIZES config1) \<le> length (winners (ui b2)) then FINISHED else READY)"
proof -
  have 1: "(0::real) \<le> 0" "(0::real) < 1" by simp_all
  have 2: "timeouts (initialBrowser config1 []) = []" by (simp add: timeouts_initialBrowser)
  have 3: "nextPrize config1 (winners (ui (initialBrowser config1 []))) = Some prizeA"
    by (simp add: ui_initialBrowser initialState_config1 nextPrize_def remainingPrizes_config1_Nil)
  have 4: "appState (ui (initialBrowser config1 [])) \<noteq> DRAWING"
    by (simp add: ui_initialBrowser initialState_config1)
  have 5: "eligible (participants (ui (initialBrowser config1 []))) (winners (ui (initialBrowser config1 []))) \<noteq> []"
    by (simp add: ui_initialBrowser initialState_config1 eligible_def)
  show ?thesis by (rule draw_commit_READY_then_close[OF 1 2 3 4 5])
qed

text \<open>
  The claim C4 as stated, that the timeout itself moves to \<open>FINISHED\<close> when no prize
  remains, fails: under \<open>config1\<close> the draw of the only prize leaves no prize, and
  the state after the timeout is \<open>READY\<close>.
\<close>

theorem commit_of_last_prize_is_READY:
  "drawWinner config1 0 (initialBrowser config1 []) = Inr drawing1
   \<and> step config1 (TimeoutFires 5) drawing1 = Inr committed1
   \<and> remainingPrizes config1 (winners (ui committed1)) = []
   \<and> appState (ui committed1) = READY
   \<and> appState (ui committed1) \<noteq> FINISHED"
proof -
  have "appState (ui committed1) \<noteq> FINISHED" by (simp add: appState_committed1)
  with drawWinner_config1 step_drawing1 remaining_committed1 appState_committed1
  show ?thesis by blast
qed

text \<open>
  Claim C5. In every state, a confirmed reset, and the save effect that follows it,
  give an empty winner list and the state \<open>READY\<close>, and leave no cookie under the
  storage key.
\<close>

theorem handleReset_clears:
  "winners (ui (save_effect cfg (handleReset cfg True b))) = []
   \<and> appState (ui (save_effect cfg (handleReset cfg True b))) = READY
   \<and> APP_STORAGE_KEY cfg \<notin> fst ` set (cookies (save_effect cfg (handleReset cfg True b)))"
  by (simp add: save_effect_def handleReset_def setCookie_expired)




text \<open>
  Claim C7. The claim: when the stored record is missing or corrupt, the load
  completes without a fatal error, with an empty winner list. The load effect does
  so for a missing record and for a record that \<^verbatim>\<open>JSON.parse\<close> rejects, whose
  exception the \<^verbatim>\<open>try\<close> catches and logs (\<open>load_effect_missing_or_unparsable\<close>). It
  does not for a record that \<^verbatim>\<open>decodeURIComponent\<close> rejects: \<^verbatim>\<open>getCookie\<close> is called
  before the \<^verbatim>\<open>try\<close>, so its \<^verbatim>\<open>URIError\<close> leaves the effect and the mount of the
  component. Under \<open>config1\<close>, with the cookie \<^verbatim>\<open>zuv=%\<close> (a percent sign that no two
  hexadecimal digits follow) and with the cookie \<^verbatim>\<open>zuv=%FF\<close> (an octet that starts
  no UTF-8 sequence) in the browser:
\<close>

theorem load_of_undecodable_record_throws:
  "getCookie (APP_STORAGE_KEY config1) [(''zuv'', ''%'')] = Inl URIError
   \<and> load_effect config1 (initialBrowser config1 [(''zuv'', ''%'')]) = Inl URIError
   \<and> mount config1 [(''zuv'', ''%'')] = Inl URIError
   \<and> getCookie (APP_STORAGE_KEY config1) [(''zuv'', ''%FF'')] = Inl URIError
   \<and> load_effect config1 (initialBrowser config1 [(''zuv'', ''%FF'')]) = Inl URIError
   \<and> mount config1 [(''zuv'', ''%FF'')] = Inl URIError"
proof -
  have k: "APP_STORAGE_KEY config1 = ''zuv''" by (simp add: config1_def)
  have 1: "getCookie (APP_STORAGE_KEY config1) [(''zuv'', ''%'')] = Inl URIError"
    unfolding k by (rule getCookie_malformed_escape)
  have 2: "getCookie (APP_STORAGE_KEY config1) [(''zuv'', ''%FF'')] = Inl URIError"
    unfolding k by (rule getCookie_not_utf8)
  have 3: "load_effect config1 (initialBrowser config1 [(''zuv'', ''%'')]) = Inl URIError"
    by (simp add: load_effect_def initialBrowser_def 1)
  have 4: "load_effect config1 (initialBrowser config1 [(''zuv'', ''%FF'')]) = Inl URIError"
    by (simp add: load_effect_def initialBrowser_def 2)
  show ?thesis by (simp add: 1 2 3 4 mount_def)
qed




text \<open>
  Claim C9. With an empty participant list and the state \<open>READY\<close>, no sequence of
  calls of \<^verbatim>\<open>drawWinner\<close> leaves \<open>READY\<close> or sets a timeout, in either copy of the
  component.
\<close>

theorem drawWinner_no_participants_stays_READY:
  assumes "participants (ui b) = []" and "appState (ui b) = READY"
  shows "(\<exists>b'. drawWinner_calls cfg randoms b = Inr b' \<and> appState (ui b') = READY \<and> timeouts b' = timeouts b)
         \<and> appState (ui ((drawWinner2 cfg ^^ n) b)) = READY
         \<and> timeouts ((drawWinner2 cfg ^^ n) b) = timeouts b"
  using assms
  by (simp add: drawWinner_calls_no_participants drawWinner2_funpow_no_participants)

theorem drawWinner_no_participants_stays_READY_witness:
  "(\<exists>b'. drawWinner_calls config0 [0, 1 / 2] (initialBrowser config0 []) = Inr b'
          \<and> appState (ui b') = READY \<and> timeouts b' = timeouts (initialBrowser config0 []))
   \<and> appState (ui ((drawWinner2 config0 ^^ 3) (initialBrowser config0 []))) = READY
   \<and> timeouts ((drawWinner2 config0 ^^ 3) (initialBrowser config0 [])) = timeouts (initialBrowser config0 [])"
proof -
  have p: "participants (ui (initialBrowser config0 [])) = []"
    by (simp add: initialBrowser_def initialState_def initialParticipants_def config0_def)
  have a: "appState (ui (initialBrowser config0 [])) = READY"
    by (simp add: initialBrowser_def initialState_def)
  show ?thesis by (rule drawWinner_no_participants_stays_READY[OF p a])
qed

text \<open>
  Claim C10, in the second copy of the component. The claim: the index chosen in
  the eligible list is in range, so the winner committed has a participant. The
  first copy returns before the choice when the list is empty
  (\<open>drawWinner_selection_defined\<close>). The second copy does not: under \<open>config2\<close>,
  after the only participant has won, the timeout of the next draw reads
  \<^verbatim>\<open>undefined\<close> from the empty list, for every random number.
\<close>

theorem timeout2_selection_undefined:
  "timeouts (drawWinner2 config2 after_first_draw2) = [Timeout2 [] prizeA 1]
   \<and> random_element random ([] :: Participant list) = None
   \<and> timeout_fires2 config2 random now (drawWinner2 config2 after_first_draw2) = Inl TypeError"
proof -
  have d: "drawWinner2 config2 after_first_draw2 =
     after_first_draw2\<lparr>ui := (ui after_first_draw2)\<lparr>appState := DRAWING\<rparr>,
                        timeouts := [Timeout2 [] prizeA 1]\<rparr>"
    by (simp add: eligible_after_first_draw2 drawWinner2_def nextPrize_def
          remaining_after_first_draw2 timeouts_after_first_draw2)
       (simp add: ui_after_first_draw2)
  have r: "random_element random ([] :: Participant list) = None"
    by (simp add: random_element_def)
  show ?thesis
    by (simp add: d r timeout_fires2_def timeout_callback2_def)
qed

end
